theory Spec2Isabelle
  imports Complex_Main "HOL-Library.Word"
begin

section \<open>Little Alchemy: element combination and world-object lifecycle\<close>

text \<open>
  A shallow embedding of \<^verbatim>\<open>src/main.cpp\<close>: the classes \<^verbatim>\<open>Element\<close>,
  \<^verbatim>\<open>GameObject\<close>, \<^verbatim>\<open>CombinationRegistry\<close> and the event handling,
  collision resolution and per-frame update of \<^verbatim>\<open>Game\<close>.

  Conventions of the embedding:
  \<^item> a \<^verbatim>\<open>float\<close> (coordinates, clock readings) is a \<open>real\<close>: rounding, infinities
    and NaN are outside the model;
  \<^item> the \<^verbatim>\<open>int\<close> \<^verbatim>\<open>creationCount\<close> is a word of 32 bits, read as a signed number by
    \<open>sint\<close>; its increment wraps around, from \<open>2^31 - 1\<close> to \<open>- 2^31\<close>, as the
    compiled code does (C++ leaves signed overflow undefined);
  \<^item> a \<^verbatim>\<open>std::shared_ptr<GameObject>\<close> is an address (a \<open>nat\<close>) into an explicit
    store, so that pointer equality and writes through an alias are what they are in the
    source; a \<^verbatim>\<open>std::shared_ptr<Element>\<close> is the element's index in the vector
    \<^verbatim>\<open>Game::elements\<close>, which is filled once by the constructor and never resized;
  \<^item> rendering, fonts and the book's own selection and scroll state are not modelled;
    the texture sizes read from the asset files are a parameter of the constructor.
\<close>

subsection \<open>Element\<close>

record Element =
  name :: string
  description :: string
  discovered :: bool
  creationCount :: "32 word"

text \<open>The constructor: \<^verbatim>\<open>creationCount(0)\<close>, \<^verbatim>\<open>discovered(disc)\<close>.\<close>

definition mkElement :: "string \<Rightarrow> string \<Rightarrow> bool \<Rightarrow> Element" where
  "mkElement n desc disc =
     \<lparr>name = n, description = desc, discovered = disc, creationCount = 0\<rparr>"

subsection \<open>CombinationRegistry\<close>

text \<open>
  The assignments \<^verbatim>\<open>combinations[{a, b}] = r\<close> of the constructor, in source order.
\<close>

definition rules :: "((string \<times> string) \<times> string) list" where
  "rules =
    [((''Fire'', ''Water''), ''Steam''), ((''Water'', ''Fire''), ''Steam''),
     ((''Fire'', ''Earth''), ''Lava''), ((''Earth'', ''Fire''), ''Lava''),
     ((''Fire'', ''Air''), ''Smoke''), ((''Air'', ''Fire''), ''Smoke''),
     ((''Water'', ''Earth''), ''Mud''), ((''Earth'', ''Water''), ''Mud''),
     ((''Water'', ''Air''), ''Mist''), ((''Air'', ''Water''), ''Mist''),
     ((''Earth'', ''Air''), ''Dust''), ((''Air'', ''Earth''), ''Dust''),
     ((''Fire'', ''Fire''), ''Energy''),
     ((''Water'', ''Water''), ''Ocean''),
     ((''Earth'', ''Earth''), ''Mountain''),
     ((''Air'', ''Air''), ''Wind''),
     ((''Steam'', ''Air''), ''Cloud''), ((''Air'', ''Steam''), ''Cloud''),
     ((''Cloud'', ''Water''), ''Rain''), ((''Water'', ''Cloud''), ''Rain''),
     ((''Mud'', ''Energy''), ''Plant''), ((''Energy'', ''Mud''), ''Plant''),
     ((''Lava'', ''Air''), ''Stone''), ((''Air'', ''Lava''), ''Stone''),
     ((''Lava'', ''Mountain''), ''Volcano''), ((''Mountain'', ''Lava''), ''Volcano''),
     ((''Energy'', ''Air''), ''Lightning''), ((''Air'', ''Energy''), ''Lightning''),
     ((''Water'', ''Wind''), ''Ice''), ((''Wind'', ''Water''), ''Ice''),
     ((''Stone'', ''Wind''), ''Sand''), ((''Wind'', ''Stone''), ''Sand''),
     ((''Mud'', ''Plant''), ''Swamp''), ((''Plant'', ''Mud''), ''Swamp''),
     ((''Plant'', ''Plant''), ''Forest''),
     ((''Sand'', ''Sand''), ''Desert''),
     ((''Energy'', ''Plant''), ''Life''), ((''Plant'', ''Energy''), ''Life'')]"

text \<open>
  \<^verbatim>\<open>std::map::operator[]\<close> followed by an assignment inserts the key or overwrites
  its value: the map after the constructor is the fold of the updates.
\<close>

definition combinations :: "(string \<times> string) \<rightharpoonup> string" where
  "combinations = fold (\<lambda>(k, r) m. m(k \<mapsto> r)) rules Map.empty"

definition isValidCombination :: "string \<Rightarrow> string \<Rightarrow> bool" where
  "isValidCombination e1 e2 = (combinations (e1, e2) \<noteq> None)"

definition getResult :: "string \<Rightarrow> string \<Rightarrow> string" where
  "getResult e1 e2 = (case combinations (e1, e2) of Some r \<Rightarrow> r | None \<Rightarrow> [])"

subsection \<open>Geometry of the graphics library\<close>

text \<open>
  \<^verbatim>\<open>sf::Vector2f\<close>, \<^verbatim>\<open>sf::Color\<close> (red, green, blue, alpha) and
  \<^verbatim>\<open>sf::FloatRect\<close>, with the library's \<^verbatim>\<open>Rect::contains\<close> (left and top edges
  inclusive, right and bottom exclusive) and \<^verbatim>\<open>Rect::intersects\<close> (an intersection
  of non-zero area).
\<close>

type_synonym Vector2f = "real \<times> real"

type_synonym Color = "nat \<times> nat \<times> nat \<times> nat"

record FloatRect =
  rectLeft :: real
  rectTop :: real
  rectWidth :: real
  rectHeight :: real

definition contains :: "FloatRect \<Rightarrow> Vector2f \<Rightarrow> bool" where
  "contains r p =
     (let minX = min (rectLeft r) (rectLeft r + rectWidth r);
          maxX = max (rectLeft r) (rectLeft r + rectWidth r);
          minY = min (rectTop r) (rectTop r + rectHeight r);
          maxY = max (rectTop r) (rectTop r + rectHeight r)
      in fst p \<ge> minX \<and> fst p < maxX \<and> snd p \<ge> minY \<and> snd p < maxY)"

definition intersects :: "FloatRect \<Rightarrow> FloatRect \<Rightarrow> bool" where
  "intersects r1 r2 =
     (let r1MinX = min (rectLeft r1) (rectLeft r1 + rectWidth r1);
          r1MaxX = max (rectLeft r1) (rectLeft r1 + rectWidth r1);
          r1MinY = min (rectTop r1) (rectTop r1 + rectHeight r1);
          r1MaxY = max (rectTop r1) (rectTop r1 + rectHeight r1);
          r2MinX = min (rectLeft r2) (rectLeft r2 + rectWidth r2);
          r2MaxX = max (rectLeft r2) (rectLeft r2 + rectWidth r2);
          r2MinY = min (rectTop r2) (rectTop r2 + rectHeight r2);
          r2MaxY = max (rectTop r2) (rectTop r2 + rectHeight r2);
          interLeft = max r1MinX r2MinX;
          interTop = max r1MinY r2MinY;
          interRight = min r1MaxX r2MaxX;
          interBottom = min r1MaxY r2MaxY
      in interLeft < interRight \<and> interTop < interBottom)"

definition White :: Color where
  "White = (255, 255, 255, 255)"

text \<open>\<^verbatim>\<open>(a + b) / 2.0f\<close> on vectors.\<close>

definition midpoint2 :: "Vector2f \<Rightarrow> Vector2f \<Rightarrow> Vector2f" where
  "midpoint2 a b = ((fst a + fst b) / 2, (snd a + snd b) / 2)"

text \<open>
  The part of \<^verbatim>\<open>sf::Sprite\<close> the game reads and writes: position, colour, scale and
  the size of the texture rectangle taken from the texture by \<^verbatim>\<open>setTexture\<close>. Origin
  and rotation are never set, so the global bounds are the texture rectangle scaled and
  moved to the position.
\<close>

record Sprite =
  position :: Vector2f
  color :: Color
  scale :: Vector2f
  textureSize :: "nat \<times> nat"

definition getGlobalBounds :: "Sprite \<Rightarrow> FloatRect" where
  "getGlobalBounds s =
     \<lparr>rectLeft = fst (position s), rectTop = snd (position s),
      rectWidth = fst (scale s) * real (fst (textureSize s)),
      rectHeight = snd (scale s) * real (snd (textureSize s))\<rparr>"

subsection \<open>GameObject\<close>

record GameObject =
  element :: nat
  sprite :: Sprite
  spritePath :: string
  creationTime :: real
  isDragging :: bool

text \<open>
  The constructor: \<^verbatim>\<open>isDragging(false)\<close>, the texture, the position and the scale
  \<^verbatim>\<open>0.5\<close>; a fresh sprite is white.
\<close>

definition mkGameObject :: "nat \<Rightarrow> nat \<times> nat \<Rightarrow> string \<Rightarrow> Vector2f \<Rightarrow> real \<Rightarrow> GameObject" where
  "mkGameObject elem texture path pos time =
     \<lparr>element = elem,
      sprite = \<lparr>position = pos, color = White, scale = (1 / 2, 1 / 2), textureSize = texture\<rparr>,
      spritePath = path, creationTime = time, isDragging = False\<rparr>"

definition setPosition :: "Vector2f \<Rightarrow> GameObject \<Rightarrow> GameObject" where
  "setPosition p obj = obj\<lparr>sprite := (sprite obj)\<lparr>position := p\<rparr>\<rparr>"

definition setColor :: "Color \<Rightarrow> GameObject \<Rightarrow> GameObject" where
  "setColor c obj = obj\<lparr>sprite := (sprite obj)\<lparr>color := c\<rparr>\<rparr>"

subsection \<open>Game: state and constructor\<close>

text \<open>
  \<open>store\<close> maps the address of every \<^verbatim>\<open>GameObject\<close> ever allocated to its
  contents and \<open>nextAddr\<close> is the next address \<^verbatim>\<open>std::make_shared\<close> hands out;
  \<open>objects\<close> is the vector of pointers and \<open>draggingObject\<close> the pointer of the same
  name (\<open>None\<close> for \<^verbatim>\<open>nullptr\<close>). \<open>textures\<close> gives the size of the texture
  loaded for an element name. \<open>bookOpen\<close> is \<^verbatim>\<open>ElementBook::isOpen\<close>.
\<close>

record Game =
  elements :: "Element list"
  objects :: "nat list"
  store :: "nat \<Rightarrow> GameObject"
  nextAddr :: nat
  textures :: "string \<Rightarrow> nat \<times> nat"
  bookOpen :: bool
  draggingObject :: "nat option"
  invalidMarkTime :: real
  invalidMarkPos :: Vector2f
  sidebarScroll :: real

definition maxObjects :: nat where
  "maxObjects = 50"

definition scrollSpeed :: real where
  "scrollSpeed = 30"

text \<open>The window is created 800 by 600; resizing it is outside the model.\<close>

definition windowSize :: "nat \<times> nat" where
  "windowSize = (800, 600)"

definition initialElements :: "Element list" where
  "initialElements =
    [mkElement ''Fire'' ''A blazing flame'' True,
     mkElement ''Water'' ''Crystal clear liquid'' True,
     mkElement ''Earth'' ''Rich brown soil'' True,
     mkElement ''Air'' ''Invisible breeze'' True,
     mkElement ''Steam'' ''Hot water vapor'' False,
     mkElement ''Lava'' ''Molten rock and fire'' False,
     mkElement ''Smoke'' ''Cloudy haze'' False,
     mkElement ''Mud'' ''Wet and sticky earth'' False,
     mkElement ''Mist'' ''Gentle water vapor'' False,
     mkElement ''Dust'' ''Fine particles in air'' False,
     mkElement ''Energy'' ''Pure concentrated power'' False,
     mkElement ''Ocean'' ''Vast body of water'' False,
     mkElement ''Mountain'' ''Towering earthen peak'' False,
     mkElement ''Wind'' ''Strong moving air'' False,
     mkElement ''Cloud'' ''Fluffy sky formation'' False,
     mkElement ''Rain'' ''Falling water droplets'' False,
     mkElement ''Plant'' ''Green growing life'' False,
     mkElement ''Stone'' ''Hard solid rock'' False,
     mkElement ''Volcano'' ''Explosive mountain'' False,
     mkElement ''Lightning'' ''Electric bolt'' False,
     mkElement ''Ice'' ''Frozen water crystal'' False,
     mkElement ''Sand'' ''Tiny rock particles'' False,
     mkElement ''Swamp'' ''Muddy wetland'' False,
     mkElement ''Forest'' ''Dense tree collection'' False,
     mkElement ''Desert'' ''Vast sandy wasteland'' False,
     mkElement ''Life'' ''The essence of living things'' False]"

text \<open>
  \<^verbatim>\<open>Game::Game\<close>, given the sizes of the loaded textures: no object, no dragged
  object, the book closed, \<^verbatim>\<open>invalidMarkTime(0)\<close>, a zero vector and scroll offset.
  Addresses that were never allocated hold an arbitrary fixed object.
\<close>

definition newGame :: "(string \<Rightarrow> nat \<times> nat) \<Rightarrow> Game" where
  "newGame texs =
     \<lparr>elements = initialElements, objects = [],
      store = (\<lambda>_. mkGameObject 0 (0, 0) [] (0, 0) 0), nextAddr = 0,
      textures = texs, bookOpen = False, draggingObject = None,
      invalidMarkTime = 0, invalidMarkPos = (0, 0), sidebarScroll = 0\<rparr>"

text \<open>
  The constructor's fallback when an asset cannot be read is a 50 by 50 square for every
  element.
\<close>

definition fallbackTextures :: "string \<Rightarrow> nat \<times> nat" where
  "fallbackTextures n = (50, 50)"

subsection \<open>Game::checkCollisions\<close>

text \<open>
  The inner loop \<^verbatim>\<open>for (auto &elem : elements) if (elem->name == result) ...\<close>:
  the index of the first element of that name, \<open>None\<close> when the loop falls through.
\<close>

fun findElementFrom :: "nat \<Rightarrow> Element list \<Rightarrow> string \<Rightarrow> nat option" where
  "findElementFrom i [] result = None"
| "findElementFrom i (elem # rest) result =
     (if name elem = result then Some i else findElementFrom (Suc i) rest result)"

text \<open>
  The body run for the element found: discover it, count it, allocate the new object at
  the midpoint of the two sprites and push it. When no element has the name nothing is
  created (the objects are still queued for removal by the caller).
\<close>

definition createResult :: "Game \<Rightarrow> nat \<Rightarrow> nat \<Rightarrow> string \<Rightarrow> real \<Rightarrow> Game" where
  "createResult g dragged other result time =
     (case findElementFrom 0 (elements g) result of
        None \<Rightarrow> g
      | Some i \<Rightarrow>
          g\<lparr>elements := (elements g)
               [i := (elements g ! i)\<lparr>discovered := True,
                                      creationCount := creationCount (elements g ! i) + 1\<rparr>],
            store := (store g)
               (nextAddr g := mkGameObject i (textures g result) (''assets/'' @ result @ ''.png'')
                  (midpoint2 (position (sprite (store g dragged)))
                             (position (sprite (store g other)))) time),
            nextAddr := Suc (nextAddr g),
            objects := objects g @ [nextAddr g]\<rparr>)"

text \<open>The else branch: the red mark for one second and a half transparent partner.\<close>

definition markInvalid :: "Game \<Rightarrow> nat \<Rightarrow> nat \<Rightarrow> real \<Rightarrow> Game" where
  "markInvalid g dragged other time =
     g\<lparr>invalidMarkPos := midpoint2 (position (sprite (store g dragged)))
                                    (position (sprite (store g other))),
       invalidMarkTime := time + 1,
       store := (store g)(other := setColor (255, 255, 255, 128) (store g other))\<rparr>"

text \<open>
  The loop over \<^verbatim>\<open>objects\<close>, on the pointers still to visit; it returns the state
  and \<^verbatim>\<open>toRemove\<close>. A valid combination ends it (\<^verbatim>\<open>break\<close>).
\<close>

fun scanObjects :: "Game \<Rightarrow> nat \<Rightarrow> real \<Rightarrow> nat list \<Rightarrow> Game \<times> nat list" where
  "scanObjects g dragged time [] = (g, [])"
| "scanObjects g dragged time (other # rest) =
     (if other = dragged \<or> isDragging (store g other) then scanObjects g dragged time rest
      else if intersects (getGlobalBounds (sprite (store g dragged)))
                         (getGlobalBounds (sprite (store g other)))
      then (if getResult (name (elements g ! element (store g dragged)))
                         (name (elements g ! element (store g other))) \<noteq> []
            then (createResult g dragged other
                    (getResult (name (elements g ! element (store g dragged)))
                               (name (elements g ! element (store g other)))) time,
                  [dragged, other])
            else scanObjects (markInvalid g dragged other time) dragged time rest)
      else scanObjects g dragged time rest)"

definition checkCollisions :: "Game \<Rightarrow> nat \<Rightarrow> real \<Rightarrow> Game" where
  "checkCollisions g dragged time =
     (case scanObjects g dragged time (objects g) of
        (g', toRemove) \<Rightarrow>
          if toRemove \<noteq> []
          then g'\<lparr>objects := filter (\<lambda>obj. obj \<notin> set toRemove) (objects g')\<rparr>
          else g')"

subsection \<open>Game::update\<close>

text \<open>
  \<^verbatim>\<open>std::min_element\<close> with a comparison: the position of the first smallest
  element (the length of the list, the end iterator, when the list is empty).
\<close>

fun min_element_loop :: "('a \<Rightarrow> 'a \<Rightarrow> bool) \<Rightarrow> 'a \<Rightarrow> nat \<Rightarrow> nat \<Rightarrow> 'a list \<Rightarrow> nat" where
  "min_element_loop cmp smallest si i [] = si"
| "min_element_loop cmp smallest si i (x # xs) =
     (if cmp x smallest then min_element_loop cmp x i (Suc i) xs
      else min_element_loop cmp smallest si (Suc i) xs)"

definition min_element :: "('a \<Rightarrow> 'a \<Rightarrow> bool) \<Rightarrow> 'a list \<Rightarrow> nat" where
  "min_element cmp xs = (case xs of [] \<Rightarrow> 0 | x # rest \<Rightarrow> min_element_loop cmp x 0 1 rest)"

text \<open>\<^verbatim>\<open>vector::erase\<close> at a position.\<close>

definition erase :: "'a list \<Rightarrow> nat \<Rightarrow> 'a list" where
  "erase xs i = take i xs @ drop (Suc i) xs"

text \<open>
  \<^verbatim>\<open>while (objects.size() > maxObjects)\<close>: the loop writes \<^verbatim>\<open>objects\<close> only and
  reads the creation times through the store. It ends because each round erases an
  element.
\<close>

function evictLoop :: "(nat \<Rightarrow> GameObject) \<Rightarrow> nat list \<Rightarrow> nat list" where
  "evictLoop st objs =
     (if length objs > maxObjects
      then evictLoop st
             (erase objs (min_element (\<lambda>a b. creationTime (st a) < creationTime (st b)) objs))
      else objs)"
  by pat_completeness auto
termination
proof (relation "measure (\<lambda>(st, objs). length objs)")
  show "wf (measure (\<lambda>(st :: nat \<Rightarrow> GameObject, objs :: nat list). length objs))"
    by simp
next
  fix st :: "nat \<Rightarrow> GameObject" and objs :: "nat list"
  assume over: "maxObjects < length objs"
  have loop: "si < i \<Longrightarrow> min_element_loop cmp sv si i xs < i + length xs"
    for cmp :: "nat \<Rightarrow> nat \<Rightarrow> bool" and sv si i xs
  proof (induction xs arbitrary: sv si i)
    case Nil
    then show ?case by simp
  next
    case (Cons a xs)
    from Cons.prems have "si < Suc i" by simp
    then show ?case
      using Cons.IH [of i "Suc i" a] Cons.IH [of si "Suc i" sv] by simp
  qed
  have "min_element (\<lambda>a b. creationTime (st a) < creationTime (st b)) objs < length objs"
  proof (cases objs)
    case Nil
    with over show ?thesis by simp
  next
    case (Cons x rest)
    then show ?thesis
      using loop [of 0 1 _ x rest] by (simp add: min_element_def)
  qed
  then show "((st, erase objs (min_element (\<lambda>a b. creationTime (st a) < creationTime (st b)) objs)),
              (st, objs)) \<in> measure (\<lambda>(st, objs). length objs)"
    by (simp add: erase_def)
qed

declare evictLoop.simps [simp del]

text \<open>The second loop: every object still in the vector becomes white again.\<close>

definition resetColors :: "nat list \<Rightarrow> (nat \<Rightarrow> GameObject) \<Rightarrow> (nat \<Rightarrow> GameObject)" where
  "resetColors objs st = fold (\<lambda>obj s. s(obj := setColor White (s obj))) objs st"

definition update :: "Game \<Rightarrow> real \<Rightarrow> Game" where
  "update g time =
     g\<lparr>objects := evictLoop (store g) (objects g),
       store := resetColors (evictLoop (store g) (objects g)) (store g)\<rparr>"

subsection \<open>Game::handleEvents\<close>

datatype MouseButton = Mouse_Left | Mouse_Right | Mouse_Middle | Mouse_XButton1 | Mouse_XButton2

text \<open>
  The events the game looks at, with the pixel coordinates they carry; the wheel event
  carries its delta first. \<open>OtherEvent\<close> is any other event type.
\<close>

datatype Event =
    Closed
  | MouseWheelScrolled real int int
  | MouseButtonPressed MouseButton int int
  | MouseButtonReleased MouseButton int int
  | MouseMoved int int
  | OtherEvent

text \<open>With the default view of a window that keeps its size, pixels are coordinates.\<close>

definition mapPixelToCoords :: "int \<Rightarrow> int \<Rightarrow> Vector2f" where
  "mapPixelToCoords x y = (real_of_int x, real_of_int y)"

text \<open>The book icon and the trash bin are scaled to 64 by 64 whatever their texture.\<close>

definition bookIconBounds :: FloatRect where
  "bookIconBounds = \<lparr>rectLeft = 10, rectTop = 10, rectWidth = 64, rectHeight = 64\<rparr>"

definition exitButtonBounds :: FloatRect where
  "exitButtonBounds = \<lparr>rectLeft = 668, rectTop = 100, rectWidth = 32, rectHeight = 32\<rparr>"

definition trashBinBounds :: FloatRect where
  "trashBinBounds =
     \<lparr>rectLeft = 10, rectTop = real (snd windowSize - 74), rectWidth = 64, rectHeight = 64\<rparr>"

text \<open>
  \<^verbatim>\<open>ElementBook::handleInput\<close>, as far as \<^verbatim>\<open>isOpen\<close> goes: a left click on the
  icon opens the book; a left click outside the book or on its close button closes it.
\<close>

definition bookHandleInput :: "bool \<Rightarrow> Event \<Rightarrow> bool" where
  "bookHandleInput isOpen event =
     (case event of
        MouseButtonPressed button x y \<Rightarrow>
          if button = Mouse_Left then
            (let mousePos = mapPixelToCoords x y in
             if \<not> isOpen then (if contains bookIconBounds mousePos then \<not> isOpen else isOpen)
             else if fst mousePos < 100 \<or> fst mousePos > 700 \<or> snd mousePos < 100 \<or> snd mousePos > 500
             then \<not> isOpen
             else if contains exitButtonBounds mousePos then \<not> isOpen
             else isOpen)
          else isOpen
      | _ \<Rightarrow> isOpen)"

text \<open>The wheel over the right sidebar, with the book closed, scrolls the sidebar.\<close>

definition scrollSidebar :: "Game \<Rightarrow> real \<Rightarrow> Vector2f \<Rightarrow> Game" where
  "scrollSidebar g delta mousePos =
     (if fst mousePos > real (fst windowSize - 100) \<and> \<not> bookOpen g then
        (let scrolled = sidebarScroll g - delta * scrollSpeed;
             discoveredCount = length (filter discovered (elements g));
             maxScroll = max 0 (real discoveredCount * 30 - real (snd windowSize) + 50)
         in g\<lparr>sidebarScroll := max 0 (min scrolled maxScroll)\<rparr>)
      else g)"

text \<open>
  The body of the sidebar loop when the click lands on a visible button and the world is
  under its limit: a new object of element \<open>i\<close> at (400, 300), and the count.
\<close>

definition spawnObject :: "Game \<Rightarrow> nat \<Rightarrow> real \<Rightarrow> Game" where
  "spawnObject g i time =
     g\<lparr>store := (store g)
          (nextAddr g := mkGameObject i (textures g (name (elements g ! i)))
             (''assets/'' @ name (elements g ! i) @ ''.png'') (400, 300) time),
       nextAddr := Suc (nextAddr g),
       objects := objects g @ [nextAddr g],
       elements := (elements g)
          [i := (elements g ! i)\<lparr>creationCount := creationCount (elements g ! i) + 1\<rparr>]\<rparr>"

text \<open>
  The loop over the elements on a left click: \<open>i\<close> is the index, \<open>discoveredIndex\<close>
  counts the discovered elements passed, the list holds the elements still to visit.
\<close>

fun sidebarClick :: "Game \<Rightarrow> real \<Rightarrow> Vector2f \<Rightarrow> nat \<Rightarrow> nat \<Rightarrow> Element list \<Rightarrow> Game" where
  "sidebarClick g time mousePos i discoveredIndex [] = g"
| "sidebarClick g time mousePos i discoveredIndex (elem # rest) =
     (if \<not> discovered elem then sidebarClick g time mousePos (Suc i) discoveredIndex rest
      else if real (10 + discoveredIndex * 30) - sidebarScroll g \<ge> - 30
            \<and> real (10 + discoveredIndex * 30) - sidebarScroll g \<le> real (snd windowSize)
            \<and> contains \<lparr>rectLeft = 705,
                         rectTop = real (10 + discoveredIndex * 30) - sidebarScroll g,
                         rectWidth = 100, rectHeight = 30\<rparr> mousePos
            \<and> length (objects g) < maxObjects
      then spawnObject g i time
      else sidebarClick g time mousePos (Suc i) (Suc discoveredIndex) rest)"

text \<open>The loop that starts a drag: the first object under the pointer.\<close>

fun startDragging :: "Game \<Rightarrow> Vector2f \<Rightarrow> nat list \<Rightarrow> Game" where
  "startDragging g mousePos [] = g"
| "startDragging g mousePos (obj # rest) =
     (if contains (getGlobalBounds (sprite (store g obj))) mousePos
      then g\<lparr>store := (store g)(obj := (store g obj)\<lparr>isDragging := True\<rparr>),
             draggingObject := Some obj\<rparr>
      else startDragging g mousePos rest)"

definition mousePressed :: "Game \<Rightarrow> real \<Rightarrow> Vector2f \<Rightarrow> Game" where
  "mousePressed g time mousePos =
     (let g1 = sidebarClick g time mousePos 0 0 (elements g)
      in startDragging g1 mousePos (objects g1))"

definition mouseReleased :: "Game \<Rightarrow> real \<Rightarrow> Game" where
  "mouseReleased g time =
     (case draggingObject g of
        None \<Rightarrow> g
      | Some d \<Rightarrow>
          (let g1 = (if intersects (getGlobalBounds (sprite (store g d))) trashBinBounds
                     then g\<lparr>objects := filter (\<lambda>obj. obj \<noteq> d) (objects g)\<rparr>
                     else checkCollisions g d time)
           in g1\<lparr>store := (store g1)(d := (store g1 d)\<lparr>isDragging := False\<rparr>),
                 draggingObject := None\<rparr>))"

definition mouseMoved :: "Game \<Rightarrow> Vector2f \<Rightarrow> Game" where
  "mouseMoved g mousePos =
     (case draggingObject g of
        None \<Rightarrow> g
      | Some d \<Rightarrow>
          g\<lparr>store := (store g)
               (d := setPosition (fst mousePos - 25, snd mousePos - 25) (store g d))\<rparr>)"

text \<open>
  One round of the \<^verbatim>\<open>pollEvent\<close> loop; \<open>time\<close> is what the clock reads during it.
  The book sees the event first, and an open book hides the event from the game.
\<close>

definition handleEvent :: "Game \<Rightarrow> real \<Rightarrow> Event \<Rightarrow> Game" where
  "handleEvent g time event =
     (let g1 = (case event of
                  MouseWheelScrolled delta x y \<Rightarrow> scrollSidebar g delta (mapPixelToCoords x y)
                | _ \<Rightarrow> g);
          g2 = g1\<lparr>bookOpen := bookHandleInput (bookOpen g1) event\<rparr>
      in if bookOpen g2 then g2
         else (case event of
                 MouseButtonPressed button x y \<Rightarrow>
                   if button = Mouse_Left then mousePressed g2 time (mapPixelToCoords x y) else g2
               | MouseButtonReleased button x y \<Rightarrow>
                   if button = Mouse_Left then mouseReleased g2 time else g2
               | MouseMoved x y \<Rightarrow> mouseMoved g2 (mapPixelToCoords x y)
               | _ \<Rightarrow> g2))"

subsection \<open>Game::run\<close>

text \<open>
  The main loop drains the event queue and then calls \<^verbatim>\<open>update\<close>, frame after
  frame. An input is one polled event or one call of \<^verbatim>\<open>update\<close>, with the clock
  reading; the states the game passes through are the \<open>run\<close>s of the new game over
  lists of inputs.
\<close>

datatype Input = Ev real Event | Tick real

fun step :: "Game \<Rightarrow> Input \<Rightarrow> Game" where
  "step g (Ev time event) = handleEvent g time event"
| "step g (Tick time) = update g time"

definition run :: "Game \<Rightarrow> Input list \<Rightarrow> Game" where
  "run g inputs = foldl step g inputs"

section \<open>Vocabulary of the properties\<close>

text \<open>
  In a list without repetition, \<open>r\<close> stands before \<open>s\<close>: the two of them, in this
  order, are what is left of the list when everything else is dropped.
\<close>

definition occursBefore :: "'a list \<Rightarrow> 'a \<Rightarrow> 'a \<Rightarrow> bool" where
  "occursBefore xs r s = (filter (\<lambda>x. x = r \<or> x = s) xs = [r, s])"

text \<open>
  \<open>ys\<close> is \<open>xs\<close> without its oldest entries: \<open>ys\<close> keeps the order of \<open>xs\<close>, and
  every entry that is gone is older than every entry that stayed, or as old and earlier
  in \<open>xs\<close>.
\<close>

definition oldestEvicted :: "(nat \<Rightarrow> real) \<Rightarrow> nat list \<Rightarrow> nat list \<Rightarrow> bool" where
  "oldestEvicted f xs ys =
     (ys = filter (\<lambda>x. x \<in> set ys) xs \<and>
      (\<forall>r \<in> set xs - set ys. \<forall>s \<in> set ys. f r < f s \<or> (f r = f s \<and> occursBefore xs r s)))"

text \<open>
  The test the scan makes on a visited object: it is not the dragged one, it is not being
  dragged, the sprites overlap, and the registry has a result for the two element names
  (\<open>combinable\<close>) or has none (\<open>rejectable\<close>).
\<close>

definition combinable :: "Game \<Rightarrow> nat \<Rightarrow> nat \<Rightarrow> bool" where
  "combinable g dragged other =
     (other \<noteq> dragged \<and> \<not> isDragging (store g other)
      \<and> intersects (getGlobalBounds (sprite (store g dragged)))
                    (getGlobalBounds (sprite (store g other)))
      \<and> getResult (name (elements g ! element (store g dragged)))
                   (name (elements g ! element (store g other))) \<noteq> [])"

definition rejectable :: "Game \<Rightarrow> nat \<Rightarrow> nat \<Rightarrow> bool" where
  "rejectable g dragged other =
     (other \<noteq> dragged \<and> \<not> isDragging (store g other)
      \<and> intersects (getGlobalBounds (sprite (store g dragged)))
                    (getGlobalBounds (sprite (store g other)))
      \<and> getResult (name (elements g ! element (store g dragged)))
                   (name (elements g ! element (store g other))) = [])"

text \<open>
  \<open>g'\<close> differs from \<open>g\<close> in the invalid mark and in sprite colours only.
\<close>

definition marksOnly :: "Game \<Rightarrow> Game \<Rightarrow> bool" where
  "marksOnly g g' =
     (elements g' = elements g \<and> objects g' = objects g \<and> nextAddr g' = nextAddr g
      \<and> textures g' = textures g \<and> bookOpen g' = bookOpen g
      \<and> draggingObject g' = draggingObject g \<and> sidebarScroll g' = sidebarScroll g
      \<and> (\<forall>a. \<exists>c. store g' a = setColor c (store g a)))"

text \<open>The four elements the constructor marks as discovered.\<close>

definition basicElements :: "string list" where
  "basicElements = [''Fire'', ''Water'', ''Earth'', ''Air'']"

text \<open>The elements still carry the names the constructor gave them, in its order.\<close>

definition catalogIntact :: "Game \<Rightarrow> bool" where
  "catalogIntact g = (map name (elements g) = map name initialElements)"

text \<open>
  What any sequence of operations may do to the vector of elements: names stay and a
  discovered element stays discovered.
\<close>

definition elemStep :: "Element list \<Rightarrow> Element list \<Rightarrow> bool" where
  "elemStep es es' =
     (length es' = length es \<and>
      (\<forall>i < length es.
         name (es' ! i) = name (es ! i)
         \<and> (discovered (es ! i) \<longrightarrow> discovered (es' ! i))))"



text \<open>
  Every pointer in the vector, and the dragged pointer, is an address that was handed
  out.
\<close>

definition allocated :: "Game \<Rightarrow> bool" where
  "allocated g = ((\<forall>a \<in> set (objects g). a < nextAddr g)
                  \<and> (\<forall>d. draggingObject g = Some d \<longrightarrow> d < nextAddr g))"

definition withinCapacity :: "Game \<Rightarrow> bool" where
  "withinCapacity g = (length (objects g) \<le> maxObjects)"

definition sound :: "Game \<Rightarrow> bool" where
  "sound g = (allocated g \<and> withinCapacity g)"

text \<open>No object of \<open>g'\<close> is being dragged unless it was an object of \<open>g\<close> being dragged.\<close>

definition noNewDragger :: "Game \<Rightarrow> Game \<Rightarrow> bool" where
  "noNewDragger g g' =
     (\<forall>a \<in> set (objects g'). isDragging (store g' a) \<longrightarrow> a \<in> set (objects g) \<and> isDragging (store g a))"

text \<open>
  What an operation other than the start and the end of a drag may do to the vector, the
  allocator, the dragged pointer and the book.
\<close>

definition objStep :: "Game \<Rightarrow> Game \<Rightarrow> bool" where
  "objStep g g' =
     (nextAddr g \<le> nextAddr g'
      \<and> set (objects g') \<subseteq> set (objects g) \<union> {nextAddr g ..< nextAddr g'}
      \<and> draggingObject g' = draggingObject g
      \<and> bookOpen g' = bookOpen g
      \<and> noNewDragger g g')"

text \<open>The only object of the world that may be flagged as dragged is the dragged one.\<close>

definition singleDragger :: "Game \<Rightarrow> bool" where
  "singleDragger g = (\<forall>a \<in> set (objects g). isDragging (store g a) \<longrightarrow> draggingObject g = Some a)"

text \<open>
  The state in which the scan goes on after it has passed the objects \<open>pre\<close> and
  rejected \<open>other\<close>.
\<close>

definition afterReject :: "Game \<Rightarrow> nat \<Rightarrow> nat \<Rightarrow> real \<Rightarrow> nat list \<Rightarrow> Game" where
  "afterReject g dragged other time pre =
     markInvalid (fst (scanObjects g dragged time pre)) dragged other time"

text \<open>
  A left press, a left release. \<open>pressesSeparated down inputs\<close>: among the inputs, every
  two left presses have a left release between them; \<open>down\<close> tells whether a left press
  without a release came before.
\<close>

definition isLeftPress :: "Input \<Rightarrow> bool" where
  "isLeftPress input =
     (case input of Ev time (MouseButtonPressed button x y) \<Rightarrow> button = Mouse_Left | _ \<Rightarrow> False)"

definition isLeftRelease :: "Input \<Rightarrow> bool" where
  "isLeftRelease input =
     (case input of Ev time (MouseButtonReleased button x y) \<Rightarrow> button = Mouse_Left | _ \<Rightarrow> False)"

fun pressesSeparated :: "bool \<Rightarrow> Input list \<Rightarrow> bool" where
  "pressesSeparated down [] = True"
| "pressesSeparated down (input # rest) =
     (if isLeftPress input then \<not> down \<and> pressesSeparated True rest
      else if isLeftRelease input then pressesSeparated False rest
      else pressesSeparated down rest)"

text \<open>
  The invariant of such inputs: no object is dragged without being the dragged one, and
  nothing is dragged while the book is open or the button is up.
\<close>

definition dragInv :: "bool \<Rightarrow> Game \<Rightarrow> bool" where
  "dragInv down g =
     (singleDragger g \<and> (bookOpen g \<longrightarrow> draggingObject g = None)
      \<and> (\<not> down \<longrightarrow> draggingObject g = None))"

subsection \<open>Example states\<close>

text \<open>
  A world of 52 objects: object 30 was created at time 0, objects 7 and 20 at time 1
  and all others at time 2.
\<close>

definition overfullGame :: Game where
  "overfullGame =
     (newGame fallbackTextures)
       \<lparr>objects := [0..<52],
        store := (\<lambda>a. mkGameObject 0 (50, 50) [] (0, 0)
                         (if a = 30 then 0 else if a = 7 \<or> a = 20 then 1 else 2)),
        nextAddr := 52\<rparr>"

text \<open>
  A game played with the fallback textures (sprites of 25 by 25). Clicks on the first
  two sidebar buttons create a Fire (object 0) and a Water (object 1) at (400, 300); the
  Fire is then picked up and moved a little, still over the Water.
\<close>

definition steamRun :: "Input list" where
  "steamRun =
     [Ev 1 (MouseButtonPressed Mouse_Left 710 15), Ev 2 (MouseButtonReleased Mouse_Left 710 15),
      Ev 3 (MouseButtonPressed Mouse_Left 710 45), Ev 4 (MouseButtonReleased Mouse_Left 710 45),
      Ev 5 (MouseButtonPressed Mouse_Left 410 310), Ev 6 (MouseMoved 412 312)]"

text \<open>
  A Fire is created, picked up and carried over the trash bin in the bottom left corner.
\<close>

definition trashRun :: "Input list" where
  "trashRun =
     [Ev 1 (MouseButtonPressed Mouse_Left 710 15), Ev 2 (MouseButtonReleased Mouse_Left 710 15),
      Ev 3 (MouseButtonPressed Mouse_Left 410 310), Ev 4 (MouseMoved 40 550)]"

text \<open>
  A world at its limit: 50 objects at (400, 300), a dragged Fire (object 0) and 49
  Waters.
\<close>

definition fullGame :: Game where
  "fullGame =
     (newGame fallbackTextures)
       \<lparr>objects := [0..<50],
        store := (\<lambda>a. (mkGameObject (if a = 0 then 0 else 1) (50, 50) [] (400, 300) (real a))
                         \<lparr>isDragging := (a = 0)\<rparr>),
        nextAddr := 50,
        draggingObject := Some 0\<rparr>"

text \<open>
  After \<open>steamRun\<close> the Fire is dropped on the Water and they become a Steam (object
  2). A second Fire (object 3) is created and picked up where it overlaps the Steam.
  \<open>rejectGame\<close> is the state this leads to.
\<close>

definition rejectRun :: "Input list" where
  "rejectRun =
     steamRun @
     [Ev 7 (MouseButtonReleased Mouse_Left 412 312),
      Ev 8 (MouseButtonPressed Mouse_Left 710 15), Ev 9 (MouseButtonReleased Mouse_Left 710 15),
      Ev 10 (MouseButtonPressed Mouse_Left 420 320)]"

definition rejectGame :: Game where
  "rejectGame =
     (newGame fallbackTextures)
       \<lparr>elements := initialElements
          [0 := (initialElements ! 0)\<lparr>creationCount := 2\<rparr>,
           1 := (initialElements ! 1)\<lparr>creationCount := 1\<rparr>,
           4 := (initialElements ! 4)\<lparr>discovered := True, creationCount := 1\<rparr>],
        objects := [2, 3],
        store := (store (newGame fallbackTextures))
          (0 := mkGameObject 0 (50, 50) ''assets/Fire.png'' (387, 287) 1,
           1 := mkGameObject 1 (50, 50) ''assets/Water.png'' (400, 300) 3,
           2 := mkGameObject 4 (50, 50) ''assets/Steam.png'' (787 / 2, 587 / 2) 7,
           3 := (mkGameObject 0 (50, 50) ''assets/Fire.png'' (400, 300) 8)\<lparr>isDragging := True\<rparr>),
        nextAddr := 4,
        draggingObject := Some 3\<rparr>"

text \<open>
  A Steam is made and carried away; a Fire (object 3), a Water (object 4) and, from the
  sidebar, a Steam (object 5) are created on the same spot, and the Fire is picked up.
  \<open>shadowedGame\<close> is the state this leads to.
\<close>

definition shadowedRun :: "Input list" where
  "shadowedRun =
     [Ev 1 (MouseButtonPressed Mouse_Left 710 15), Ev 2 (MouseButtonReleased Mouse_Left 710 15),
      Ev 3 (MouseButtonPressed Mouse_Left 710 45), Ev 4 (MouseButtonReleased Mouse_Left 710 45),
      Ev 5 (MouseButtonPressed Mouse_Left 410 310), Ev 6 (MouseButtonReleased Mouse_Left 410 310),
      Ev 7 (MouseButtonPressed Mouse_Left 410 310), Ev 8 (MouseMoved 110 110),
      Ev 9 (MouseButtonReleased Mouse_Left 110 110),
      Ev 10 (MouseButtonPressed Mouse_Left 710 15), Ev 11 (MouseButtonReleased Mouse_Left 710 15),
      Ev 12 (MouseButtonPressed Mouse_Left 710 45), Ev 13 (MouseButtonReleased Mouse_Left 710 45),
      Ev 14 (MouseButtonPressed Mouse_Left 710 135), Ev 15 (MouseButtonReleased Mouse_Left 710 135),
      Ev 16 (MouseButtonPressed Mouse_Left 410 310)]"

definition shadowedGame :: Game where
  "shadowedGame =
     (newGame fallbackTextures)
       \<lparr>elements := initialElements
          [0 := (initialElements ! 0)\<lparr>creationCount := 2\<rparr>,
           1 := (initialElements ! 1)\<lparr>creationCount := 2\<rparr>,
           4 := (initialElements ! 4)\<lparr>discovered := True, creationCount := 2\<rparr>],
        objects := [2, 3, 4, 5],
        store := (store (newGame fallbackTextures))
          (0 := mkGameObject 0 (50, 50) ''assets/Fire.png'' (400, 300) 1,
           1 := mkGameObject 1 (50, 50) ''assets/Water.png'' (400, 300) 3,
           2 := mkGameObject 4 (50, 50) ''assets/Steam.png'' (85, 85) 6,
           3 := (mkGameObject 0 (50, 50) ''assets/Fire.png'' (400, 300) 10)\<lparr>isDragging := True\<rparr>,
           4 := mkGameObject 1 (50, 50) ''assets/Water.png'' (400, 300) 12,
           5 := mkGameObject 4 (50, 50) ''assets/Steam.png'' (400, 300) 14),
        nextAddr := 6,
        draggingObject := Some 3\<rparr>"

text \<open>
  A Fire and a Water are created; the Fire is picked up and moved away, and the button
  is pressed again, over the Water, with no release in between.
\<close>

definition doublePressRun :: "Input list" where
  "doublePressRun =
     [Ev 1 (MouseButtonPressed Mouse_Left 710 15), Ev 2 (MouseButtonReleased Mouse_Left 710 15),
      Ev 3 (MouseButtonPressed Mouse_Left 710 45), Ev 4 (MouseButtonReleased Mouse_Left 710 45),
      Ev 5 (MouseButtonPressed Mouse_Left 410 310), Ev 6 (MouseMoved 110 110),
      Ev 7 (MouseButtonPressed Mouse_Left 410 310)]"

section \<open>Properties of the combination registry\<close>

lemma fold_upd_map_of:
  "fold (\<lambda>(k, r) m. m(k \<mapsto> r)) xs m0 = m0 ++ map_of (rev xs)"
  by (induction xs arbitrary: m0) (auto simp: map_add_def fun_eq_iff split: option.splits)

lemma combinations_map_of: "combinations = map_of (rev rules)"
  by (simp add: combinations_def fold_upd_map_of)

lemma distinct_rules: "distinct (map fst (rev rules))"
  unfolding rules_def by simp

lemma rules_swap_closed: "\<forall>((a, b), r) \<in> set (rev rules). ((b, a), r) \<in> set (rev rules)"
  unfolding rules_def by simp

lemma map_of_swap_closed:
  assumes d: "distinct (map fst xs)"
    and c: "\<forall>((a, b), r) \<in> set xs. ((b, a), r) \<in> set xs"
  shows "map_of xs (a, b) = map_of xs (b, a)"
proof -
  have one: "map_of xs (y, x) = Some r" if "map_of xs (x, y) = Some r" for x y r
  proof -
    from that have "((x, y), r) \<in> set xs" by (rule map_of_SomeD)
    with c have "((y, x), r) \<in> set xs" by fastforce
    with d show ?thesis by simp
  qed
  show ?thesis
  proof (cases "map_of xs (a, b)")
    case (Some r)
    with one [of a b r] show ?thesis by simp
  next
    case None
    show ?thesis
    proof (cases "map_of xs (b, a)")
      case (Some r)
      with one [of b a r] None show ?thesis by simp
    next
      case None2: None
      with None show ?thesis by simp
    qed
  qed
qed

lemma combinations_symmetric: "combinations (a, b) = combinations (b, a)"
  unfolding combinations_map_of
  by (rule map_of_swap_closed [OF distinct_rules rules_swap_closed])

text \<open>
  Claim C3. The combination registry is symmetric: for every pair of element names,
  \<open>getResult\<close> gives the same result in both orders, and \<open>isValidCombination\<close> the same
  answer.
\<close>

theorem registry_symmetric:
  "getResult a b = getResult b a \<and> isValidCombination a b = isValidCombination b a"
  by (simp add: getResult_def isValidCombination_def combinations_symmetric [of a b])

section \<open>Properties of the update\<close>

lemma min_element_loop_spec:
  fixes f :: "'a \<Rightarrow> real"
  shows "(min_element_loop (\<lambda>a b. f a < f b) sv si i xs = si \<and> (\<forall>x \<in> set xs. f sv \<le> f x))
       \<or> (\<exists>k < length xs. min_element_loop (\<lambda>a b. f a < f b) sv si i xs = i + k
             \<and> f (xs ! k) < f sv \<and> (\<forall>x \<in> set xs. f (xs ! k) \<le> f x)
             \<and> (\<forall>j < k. f (xs ! k) < f (xs ! j)))"
    (is "?P sv si i xs")
proof (induction xs arbitrary: sv si i)
  case Nil
  then show ?case by simp
next
  case (Cons x xs)
  show ?case
  proof (cases "f x < f sv")
    case True
    from Cons.IH [of x i "Suc i"] show ?thesis
    proof
      assume "min_element_loop (\<lambda>a b. f a < f b) x i (Suc i) xs = i \<and> (\<forall>y \<in> set xs. f x \<le> f y)"
      with True have "\<exists>k < length (x # xs). min_element_loop (\<lambda>a b. f a < f b) sv si i (x # xs) = i + k
             \<and> f ((x # xs) ! k) < f sv \<and> (\<forall>y \<in> set (x # xs). f ((x # xs) ! k) \<le> f y)
             \<and> (\<forall>j < k. f ((x # xs) ! k) < f ((x # xs) ! j))"
        by (intro exI [of _ 0]) simp
      then show ?thesis ..
    next
      assume "\<exists>k < length xs. min_element_loop (\<lambda>a b. f a < f b) x i (Suc i) xs = Suc i + k
             \<and> f (xs ! k) < f x \<and> (\<forall>y \<in> set xs. f (xs ! k) \<le> f y)
             \<and> (\<forall>j < k. f (xs ! k) < f (xs ! j))"
      then obtain k where k: "k < length xs"
        "min_element_loop (\<lambda>a b. f a < f b) x i (Suc i) xs = Suc i + k"
        "f (xs ! k) < f x" "\<forall>y \<in> set xs. f (xs ! k) \<le> f y" "\<forall>j < k. f (xs ! k) < f (xs ! j)"
        by blast
      with True have "\<exists>k < length (x # xs). min_element_loop (\<lambda>a b. f a < f b) sv si i (x # xs) = i + k
             \<and> f ((x # xs) ! k) < f sv \<and> (\<forall>y \<in> set (x # xs). f ((x # xs) ! k) \<le> f y)
             \<and> (\<forall>j < k. f ((x # xs) ! k) < f ((x # xs) ! j))"
        by (intro exI [of _ "Suc k"]) (simp add: All_less_Suc2)
      then show ?thesis ..
    qed
  next
    case False
    from Cons.IH [of sv si "Suc i"] show ?thesis
    proof
      assume "min_element_loop (\<lambda>a b. f a < f b) sv si (Suc i) xs = si \<and> (\<forall>y \<in> set xs. f sv \<le> f y)"
      with False show ?thesis by simp
    next
      assume "\<exists>k < length xs. min_element_loop (\<lambda>a b. f a < f b) sv si (Suc i) xs = Suc i + k
             \<and> f (xs ! k) < f sv \<and> (\<forall>y \<in> set xs. f (xs ! k) \<le> f y)
             \<and> (\<forall>j < k. f (xs ! k) < f (xs ! j))"
      then obtain k where k: "k < length xs"
        "min_element_loop (\<lambda>a b. f a < f b) sv si (Suc i) xs = Suc i + k"
        "f (xs ! k) < f sv" "\<forall>y \<in> set xs. f (xs ! k) \<le> f y" "\<forall>j < k. f (xs ! k) < f (xs ! j)"
        by blast
      with False have "\<exists>k < length (x # xs). min_element_loop (\<lambda>a b. f a < f b) sv si i (x # xs) = i + k
             \<and> f ((x # xs) ! k) < f sv \<and> (\<forall>y \<in> set (x # xs). f ((x # xs) ! k) \<le> f y)
             \<and> (\<forall>j < k. f ((x # xs) ! k) < f ((x # xs) ! j))"
        by (intro exI [of _ "Suc k"]) (simp add: All_less_Suc2)
      then show ?thesis ..
    qed
  qed
qed

lemma min_element_spec:
  fixes f :: "'a \<Rightarrow> real"
  assumes "xs \<noteq> []"
  defines "k \<equiv> min_element (\<lambda>a b. f a < f b) xs"
  shows "k < length xs" and "\<forall>x \<in> set xs. f (xs ! k) \<le> f x" and "\<forall>j < k. f (xs ! k) < f (xs ! j)"
proof -
  from assms(1) obtain x rest where xs: "xs = x # rest" by (cases xs) auto
  have k: "k = min_element_loop (\<lambda>a b. f a < f b) x 0 1 rest"
    by (simp add: k_def xs min_element_def)
  from min_element_loop_spec [of f x 0 1 rest]
  have "k < length xs \<and> (\<forall>x \<in> set xs. f (xs ! k) \<le> f x) \<and> (\<forall>j < k. f (xs ! k) < f (xs ! j))"
    unfolding k [symmetric] xs by (auto simp: nth_Cons' less_Suc_eq_le)
  then show "k < length xs" and "\<forall>x \<in> set xs. f (xs ! k) \<le> f x" and "\<forall>j < k. f (xs ! k) < f (xs ! j)"
    by blast+
qed

lemma erase_distinct:
  assumes "distinct xs" "k < length xs"
  shows "erase xs k = filter (\<lambda>x. x \<noteq> xs ! k) xs"
proof -
  have xs: "xs = take k xs @ xs ! k # drop (Suc k) xs"
    using assms(2) by (rule id_take_nth_drop)
  with assms(1) have d: "distinct (take k xs @ xs ! k # drop (Suc k) xs)" by simp
  then have "xs ! k \<notin> set (take k xs)" "xs ! k \<notin> set (drop (Suc k) xs)" by auto
  then have "filter (\<lambda>x. x \<noteq> xs ! k) (take k xs) = take k xs"
    and "filter (\<lambda>x. x \<noteq> xs ! k) (drop (Suc k) xs) = drop (Suc k) xs"
    by (auto intro!: filter_True)
  then have "filter (\<lambda>x. x \<noteq> xs ! k) (take k xs @ xs ! k # drop (Suc k) xs)
             = take k xs @ drop (Suc k) xs"
    by simp
  with xs show ?thesis by (simp add: erase_def)
qed

lemma filter_eq_single:
  "distinct xs \<Longrightarrow> s \<in> set xs \<Longrightarrow> filter (\<lambda>x. x = s) xs = [s]"
  by (induction xs) (auto simp: filter_empty_conv)

lemma occursBefore_split:
  assumes "distinct xs" "k < length xs" "s \<in> set (drop (Suc k) xs)"
  shows "occursBefore xs (xs ! k) s"
proof -
  have xs: "xs = take k xs @ xs ! k # drop (Suc k) xs"
    using assms(2) by (rule id_take_nth_drop)
  with assms(1) have d: "distinct (take k xs @ xs ! k # drop (Suc k) xs)" by simp
  then have a: "xs ! k \<notin> set (take k xs)" "s \<notin> set (take k xs)" "s \<noteq> xs ! k"
    "distinct (drop (Suc k) xs)" "xs ! k \<notin> set (drop (Suc k) xs)"
    using assms(3) by auto
  have 1: "filter (\<lambda>x. x = xs ! k \<or> x = s) (take k xs) = []"
    using a by (auto simp: filter_empty_conv)
  have "filter (\<lambda>x. x = xs ! k \<or> x = s) (drop (Suc k) xs) = filter (\<lambda>x. x = s) (drop (Suc k) xs)"
    using a by (intro filter_cong) auto
  also have "\<dots> = [s]" using a assms(3) by (intro filter_eq_single)
  finally have 2: "filter (\<lambda>x. x = xs ! k \<or> x = s) (drop (Suc k) xs) = [s]" .
  have "filter (\<lambda>x. x = xs ! k \<or> x = s) (take k xs @ xs ! k # drop (Suc k) xs) = [xs ! k, s]"
    by (simp add: 1 2)
  with xs show ?thesis by (simp add: occursBefore_def)
qed

lemma occursBefore_filter:
  assumes "r \<noteq> m" "s \<noteq> m"
  shows "occursBefore (filter (\<lambda>x. x \<noteq> m) xs) r s = occursBefore xs r s"
proof -
  have "filter (\<lambda>x. x = r \<or> x = s) (filter (\<lambda>x. x \<noteq> m) xs) = filter (\<lambda>x. x = r \<or> x = s) xs"
    using assms by (simp only: filter_filter) (intro filter_cong, auto)
  then show ?thesis by (simp add: occursBefore_def)
qed

lemma evictLoop_spec:
  "distinct objs \<Longrightarrow>
     length (evictLoop st objs) = min (length objs) maxObjects
     \<and> oldestEvicted (\<lambda>a. creationTime (st a)) objs (evictLoop st objs)"
proof (induction st objs rule: evictLoop.induct)
  case (1 st objs)
  let ?f = "\<lambda>a. creationTime (st a)"
  let ?k = "min_element (\<lambda>a b. creationTime (st a) < creationTime (st b)) objs"
  show ?case
  proof (cases "length objs > maxObjects")
    case False
    then have "evictLoop st objs = objs" by (subst evictLoop.simps) simp
    then show ?thesis using False by (simp add: oldestEvicted_def)
  next
    case True
    then have ne: "objs \<noteq> []" by auto
    note ms = min_element_spec [OF ne, of ?f]
    let ?m = "objs ! ?k"
    let ?objs1 = "filter (\<lambda>x. x \<noteq> ?m) objs"
    have e: "erase objs ?k = ?objs1"
      using "1.prems" ms(1) by (rule erase_distinct)
    have ev: "evictLoop st objs = evictLoop st ?objs1"
      using True e by (subst evictLoop.simps) simp
    have d1: "distinct ?objs1" using "1.prems" by simp
    have "length (erase objs ?k) = length objs - 1"
      using ms(1) by (simp add: erase_def)
    then have len1: "length ?objs1 = length objs - 1"
      unfolding e .
    from "1.IH" [OF True] d1 e
    have IH: "length (evictLoop st ?objs1) = min (length ?objs1) maxObjects"
      "oldestEvicted ?f ?objs1 (evictLoop st ?objs1)" by simp_all
    let ?ys = "evictLoop st ?objs1"
    have sub: "set ?ys \<subseteq> set ?objs1"
      using IH(2) unfolding oldestEvicted_def by (metis (no_types, lifting) filter_is_subset)
    then have mnot: "?m \<notin> set ?ys" by auto
    have A: "length ?ys = min (length objs) maxObjects"
      using IH(1) len1 True by simp
    have B: "?ys = filter (\<lambda>x. x \<in> set ?ys) objs"
    proof -
      have "?ys = filter (\<lambda>x. x \<in> set ?ys) ?objs1" using IH(2) by (simp add: oldestEvicted_def)
      also have "\<dots> = filter (\<lambda>x. x \<in> set ?ys) objs"
        using mnot by (simp only: filter_filter) (intro filter_cong, auto)
      finally show ?thesis .
    qed
    have C: "?f r < ?f s \<or> (?f r = ?f s \<and> occursBefore objs r s)"
      if r: "r \<in> set objs - set ?ys" and s: "s \<in> set ?ys" for r s
    proof (cases "r = ?m")
      case True
      from s sub have s1: "s \<in> set objs" "s \<noteq> ?m" by auto
      have xs: "objs = take ?k objs @ ?m # drop (Suc ?k) objs"
        using ms(1) by (rule id_take_nth_drop)
      from s1 xs have "s \<in> set (take ?k objs) \<or> s \<in> set (drop (Suc ?k) objs)"
        by (metis Un_iff set_ConsD set_append)
      then show ?thesis
      proof
        assume "s \<in> set (take ?k objs)"
        then obtain j where "j < ?k" "s = objs ! j"
          by (auto simp: in_set_conv_nth)
        with ms(3) True show ?thesis by simp
      next
        assume a: "s \<in> set (drop (Suc ?k) objs)"
        have "occursBefore objs ?m s" using "1.prems" ms(1) a by (rule occursBefore_split)
        moreover have "?f ?m \<le> ?f s" using ms(2) s1 by simp
        ultimately show ?thesis using True by auto
      qed
    next
      case False
      with r have r1: "r \<in> set ?objs1 - set ?ys" by simp
      from s sub have s1: "s \<noteq> ?m" by auto
      from IH(2) r1 s have "?f r < ?f s \<or> (?f r = ?f s \<and> occursBefore ?objs1 r s)"
        unfolding oldestEvicted_def by blast
      then show ?thesis using occursBefore_filter [OF False s1, of objs] by simp
    qed
    show ?thesis unfolding ev using A B C unfolding oldestEvicted_def by blast
  qed
qed

lemma evictLoop_length: "length (evictLoop st objs) = min (length objs) maxObjects"
proof (induction st objs rule: evictLoop.induct)
  case (1 st objs)
  show ?case
  proof (cases "length objs > maxObjects")
    case False
    then show ?thesis by (subst evictLoop.simps) simp
  next
    case True
    then have ne: "objs \<noteq> []" by auto
    have "length (erase objs (min_element (\<lambda>a b. creationTime (st a) < creationTime (st b)) objs))
          = length objs - 1"
      using min_element_spec(1) [OF ne, of "\<lambda>a. creationTime (st a)"] by (simp add: erase_def)
    with "1.IH" [OF True] True show ?thesis
      by (subst evictLoop.simps) simp
  qed
qed

lemma resetColors_creationTime: "creationTime (resetColors objs st a) = creationTime (st a)"
  unfolding resetColors_def
  by (induction objs arbitrary: st) (simp_all add: setColor_def)

text \<open>
  Claim C2. After \<open>update\<close> the world holds at most \<open>maxObjects\<close> objects. When it
  held \<open>maxObjects + k\<close> distinct objects before, exactly \<open>k\<close> of them are gone, the
  others keep their order and their creation times, and every object that is gone was
  created before every object that stayed, or at the same time and pushed earlier.
\<close>

theorem update_evicts_oldest:
  "length (objects (update g time)) \<le> maxObjects
   \<and> (distinct (objects g) \<and> length (objects g) = maxObjects + k \<longrightarrow>
        length (objects (update g time)) = maxObjects
        \<and> card (set (objects g) - set (objects (update g time))) = k
        \<and> objects (update g time) = filter (\<lambda>x. x \<in> set (objects (update g time))) (objects g)
        \<and> (\<forall>r \<in> set (objects g) - set (objects (update g time)).
             \<forall>s \<in> set (objects (update g time)).
               creationTime (store g r) < creationTime (store g s)
               \<or> (creationTime (store g r) = creationTime (store g s)
                   \<and> occursBefore (objects g) r s))
        \<and> (\<forall>a. creationTime (store (update g time) a) = creationTime (store g a)))"
proof -
  let ?ys = "evictLoop (store g) (objects g)"
  have o: "objects (update g time) = ?ys" by (simp add: update_def)
  have bound: "length ?ys \<le> maxObjects" by (simp add: evictLoop_length)
  have rest: "length ?ys = maxObjects
        \<and> card (set (objects g) - set ?ys) = k
        \<and> ?ys = filter (\<lambda>x. x \<in> set ?ys) (objects g)
        \<and> (\<forall>r \<in> set (objects g) - set ?ys. \<forall>s \<in> set ?ys.
               creationTime (store g r) < creationTime (store g s)
               \<or> (creationTime (store g r) = creationTime (store g s)
                   \<and> occursBefore (objects g) r s))"
    if d: "distinct (objects g)" and l: "length (objects g) = maxObjects + k"
  proof -
    from evictLoop_spec [OF d, of "store g"]
    have len: "length ?ys = maxObjects" and ev: "oldestEvicted (\<lambda>a. creationTime (store g a)) (objects g) ?ys"
      using l by simp_all
    from ev have f: "?ys = filter (\<lambda>x. x \<in> set ?ys) (objects g)" by (simp add: oldestEvicted_def)
    have dy: "distinct ?ys" by (subst f) (use d in simp)
    have sub: "set ?ys \<subseteq> set (objects g)" by (subst f) auto
    have "card (set (objects g) - set ?ys) = card (set (objects g)) - card (set ?ys)"
      using sub by (simp add: card_Diff_subset)
    also have "\<dots> = k" using d dy l len by (simp add: distinct_card)
    finally have c: "card (set (objects g) - set ?ys) = k" .
    from len c f ev show ?thesis unfolding oldestEvicted_def by blast
  qed
  have ct: "creationTime (store (update g time) a) = creationTime (store g a)" for a
    by (simp add: update_def resetColors_creationTime)
  show ?thesis unfolding o using bound rest ct o by simp
qed

theorem update_evicts_oldest_witness:
  "distinct (objects overfullGame) \<and> length (objects overfullGame) = maxObjects + 2
   \<and> length (objects (update overfullGame 9)) = maxObjects
   \<and> card (set (objects overfullGame) - set (objects (update overfullGame 9))) = 2
   \<and> objects (update overfullGame 9) = [0..<7] @ [8..<30] @ [31..<52]"
proof -
  have h: "distinct (objects overfullGame) \<and> length (objects overfullGame) = maxObjects + 2"
    by (simp add: overfullGame_def maxObjects_def)
  with update_evicts_oldest [of overfullGame 9 2]
  have c: "length (objects (update overfullGame 9)) = maxObjects
           \<and> card (set (objects overfullGame) - set (objects (update overfullGame 9))) = 2"
    by blast
  have e: "objects (update overfullGame 9) = [0..<7] @ [8..<30] @ [31..<52]"
    by (simp add: update_def overfullGame_def evictLoop.simps maxObjects_def min_element_def
        erase_def mkGameObject_def upt_rec)
  from h c e show ?thesis by blast
qed

section \<open>Properties of the collision scan\<close>

lemma setColor_fields [simp]:
  "element (setColor c obj) = element obj"
  "isDragging (setColor c obj) = isDragging obj"
  "creationTime (setColor c obj) = creationTime obj"
  "spritePath (setColor c obj) = spritePath obj"
  "position (sprite (setColor c obj)) = position (sprite obj)"
  "getGlobalBounds (sprite (setColor c obj)) = getGlobalBounds (sprite obj)"
  "color (sprite (setColor c obj)) = c"
  "setColor c (setColor c' obj) = setColor c obj"
  by (simp_all add: setColor_def getGlobalBounds_def)

lemma marksOnly_refl: "marksOnly g g"
  unfolding marksOnly_def
proof (intro conjI allI)
  fix a
  have "store g a = setColor (color (sprite (store g a))) (store g a)"
    by (simp add: setColor_def)
  then show "\<exists>c. store g a = setColor c (store g a)" ..
qed simp_all

lemma marksOnly_trans: "marksOnly g g' \<Longrightarrow> marksOnly g' g'' \<Longrightarrow> marksOnly g g''"
  unfolding marksOnly_def
  by (metis setColor_fields(8))

lemma marksOnly_markInvalid: "marksOnly g (markInvalid g dragged other time)"
  unfolding marksOnly_def markInvalid_def
proof (intro conjI allI)
  fix a
  show "\<exists>c. store (g\<lparr>invalidMarkPos := midpoint2 (position (sprite (store g dragged)))
                                    (position (sprite (store g other))),
       invalidMarkTime := time + 1,
       store := (store g)(other := setColor (255, 255, 255, 128) (store g other))\<rparr>) a = setColor c (store g a)"
    using marksOnly_refl [of g] by (cases "a = other") (auto simp: marksOnly_def)
qed simp_all

lemma marksOnly_store:
  assumes "marksOnly g g'"
  shows "element (store g' a) = element (store g a)"
    and "isDragging (store g' a) = isDragging (store g a)"
    and "creationTime (store g' a) = creationTime (store g a)"
    and "position (sprite (store g' a)) = position (sprite (store g a))"
    and "getGlobalBounds (sprite (store g' a)) = getGlobalBounds (sprite (store g a))"
proof -
  from assms obtain c where "store g' a = setColor c (store g a)"
    unfolding marksOnly_def by blast
  then show "element (store g' a) = element (store g a)"
    and "isDragging (store g' a) = isDragging (store g a)"
    and "creationTime (store g' a) = creationTime (store g a)"
    and "position (sprite (store g' a)) = position (sprite (store g a))"
    and "getGlobalBounds (sprite (store g' a)) = getGlobalBounds (sprite (store g a))"
    by simp_all
qed

lemma marksOnly_combinable:
  "marksOnly g g' \<Longrightarrow> combinable g' dragged other = combinable g dragged other"
  by (simp add: combinable_def marksOnly_store) (simp add: marksOnly_def)

lemma scanObjects_no_hit:
  "\<forall>p \<in> set pre. \<not> combinable g dragged p \<Longrightarrow>
     scanObjects g dragged time (pre @ rest)
       = scanObjects (fst (scanObjects g dragged time pre)) dragged time rest
     \<and> snd (scanObjects g dragged time pre) = []
     \<and> marksOnly g (fst (scanObjects g dragged time pre))"
proof (induction pre arbitrary: g)
  case Nil
  show ?case by (simp add: marksOnly_refl)
next
  case (Cons p pre)
  from Cons.prems have np: "\<not> combinable g dragged p"
    and rest: "\<forall>q \<in> set pre. \<not> combinable g dragged q" by simp_all
  show ?case
  proof (cases "rejectable g dragged p")
    case True
    let ?g1 = "markInvalid g dragged p time"
    have m: "marksOnly g ?g1" by (rule marksOnly_markInvalid)
    from rest have "\<forall>q \<in> set pre. \<not> combinable ?g1 dragged q"
      by (simp add: marksOnly_combinable [OF m])
    from Cons.IH [OF this] True m show ?thesis
      by (auto simp: rejectable_def intro: marksOnly_trans)
  next
    case False
    with np have skip: "p = dragged \<or> isDragging (store g p)
        \<or> \<not> intersects (getGlobalBounds (sprite (store g dragged))) (getGlobalBounds (sprite (store g p)))"
      by (auto simp: rejectable_def combinable_def)
    from Cons.IH [OF rest] skip show ?thesis by auto
  qed
qed

lemma findElementFrom_Some:
  "findElementFrom i es r = Some k \<Longrightarrow>
     \<exists>j < length es. k = i + j \<and> name (es ! j) = r \<and> (\<forall>l < j. name (es ! l) \<noteq> r)"
proof (induction es arbitrary: i)
  case Nil
  then show ?case by simp
next
  case (Cons e es)
  show ?case
  proof (cases "name e = r")
    case True
    with Cons.prems have "k = i + 0" by simp
    with True show ?thesis by (intro exI [of _ 0]) simp
  next
    case False
    with Cons.prems have "findElementFrom (Suc i) es r = Some k" by simp
    from Cons.IH [OF this] obtain j where j: "j < length es" "k = Suc i + j"
      "name (es ! j) = r" "\<forall>l < j. name (es ! l) \<noteq> r" by blast
    with False show ?thesis
      by (intro exI [of _ "Suc j"]) (simp add: All_less_Suc2)
  qed
qed

lemma findElementFrom_None:
  "findElementFrom i es r = None \<Longrightarrow> r \<notin> set (map name es)"
  by (induction es arbitrary: i) (auto split: if_splits)

lemma results_in_catalog: "\<forall>x \<in> set rules. snd x \<in> set (map name initialElements)"
  by (simp add: rules_def initialElements_def mkElement_def)

lemma getResult_in_catalog:
  assumes "getResult a b \<noteq> []"
  shows "getResult a b \<in> set (map name initialElements)"
proof -
  from assms obtain r where r: "combinations (a, b) = Some r" "getResult a b = r"
    by (auto simp: getResult_def split: option.splits)
  then have "((a, b), r) \<in> set (rev rules)"
    unfolding combinations_map_of by (auto dest: map_of_SomeD)
  then have "((a, b), r) \<in> set rules" by simp
  with results_in_catalog have "snd ((a, b), r) \<in> set (map name initialElements)" by blast
  with r show ?thesis by simp
qed

lemma findElement_result:
  assumes "catalogIntact g" "getResult a b \<noteq> []"
  shows "\<exists>i < length (elements g). findElementFrom 0 (elements g) (getResult a b) = Some i
           \<and> name (elements g ! i) = getResult a b"
proof (cases "findElementFrom 0 (elements g) (getResult a b)")
  case None
  then have "getResult a b \<notin> set (map name (elements g))" by (rule findElementFrom_None)
  with assms getResult_in_catalog [of a b] show ?thesis by (simp add: catalogIntact_def)
next
  case (Some i)
  from findElementFrom_Some [OF this] Some show ?thesis by auto
qed

lemma map_name_update:
  "map name (es[i := e]) = map name es" if "name e = name (es ! i)"
proof (cases "i < length es")
  case True
  then show ?thesis using that by (simp add: map_update list_update_same_conv)
next
  case False
  then have "es[i := e] = es" by (simp add: list_update_beyond)
  then show ?thesis by simp
qed

lemma createResult_unfold:
  "findElementFrom 0 (elements g) result = Some i \<Longrightarrow>
   createResult g dragged other result time =
     g\<lparr>elements := (elements g)
          [i := (elements g ! i)\<lparr>discovered := True,
                                 creationCount := creationCount (elements g ! i) + 1\<rparr>],
       store := (store g)
          (nextAddr g := mkGameObject i (textures g result) (''assets/'' @ result @ ''.png'')
             (midpoint2 (position (sprite (store g dragged)))
                        (position (sprite (store g other)))) time),
       nextAddr := Suc (nextAddr g),
       objects := objects g @ [nextAddr g]\<rparr>"
  by (simp add: createResult_def)

lemma scanObjects_hit:
  assumes "combinable g dragged other"
  shows "scanObjects g dragged time (other # rest)
         = (createResult g dragged other
              (getResult (name (elements g ! element (store g dragged)))
                         (name (elements g ! element (store g other)))) time,
            [dragged, other])"
  using assms by (simp add: combinable_def)

lemma scanObjects_first_hit:
  assumes pre: "\<forall>p \<in> set pre. \<not> combinable g dragged p"
    and hit: "combinable g dragged other"
  shows "\<exists>g1. marksOnly g g1 \<and>
           scanObjects g dragged time (pre @ other # rest)
           = (createResult g1 dragged other
                (getResult (name (elements g ! element (store g dragged)))
                           (name (elements g ! element (store g other)))) time,
              [dragged, other])"
proof -
  let ?g1 = "fst (scanObjects g dragged time pre)"
  from scanObjects_no_hit [OF pre, of time "other # rest"]
  have s: "scanObjects g dragged time (pre @ other # rest) = scanObjects ?g1 dragged time (other # rest)"
    and m: "marksOnly g ?g1" by simp_all
  from hit have h1: "combinable ?g1 dragged other" by (simp add: marksOnly_combinable [OF m])
  have e: "elements ?g1 = elements g" using m by (simp add: marksOnly_def)
  show ?thesis
    using s m scanObjects_hit [OF h1, of time rest]
    by (intro exI [of _ ?g1]) (simp add: e marksOnly_store [OF m])
qed

text \<open>The scan either only marks, or marks and then combines with one visited object.\<close>

lemma scanObjects_cases:
  "(snd (scanObjects g dragged time cands) = [] \<and> marksOnly g (fst (scanObjects g dragged time cands)))
   \<or> (\<exists>g1 other. marksOnly g g1 \<and> other \<in> set cands \<and> combinable g dragged other
         \<and> scanObjects g dragged time cands
           = (createResult g1 dragged other
                (getResult (name (elements g ! element (store g dragged)))
                           (name (elements g ! element (store g other)))) time,
              [dragged, other]))"
proof (cases "\<forall>p \<in> set cands. \<not> combinable g dragged p")
  case True
  from scanObjects_no_hit [OF True, of time "[]"] show ?thesis by simp
next
  case False
  then obtain pre other rest where c: "cands = pre @ other # rest"
    "combinable g dragged other" "\<forall>p \<in> set pre. \<not> combinable g dragged p"
    using split_list_first_prop [of cands "\<lambda>p. combinable g dragged p"] by auto
  from scanObjects_first_hit [OF c(3) c(2), of time rest] c show ?thesis
    by auto
qed

section \<open>Invariants of the event loop\<close>

subsection \<open>The elements\<close>

lemma elemStep_refl: "elemStep es es"
  by (simp add: elemStep_def)

lemma elemStep_trans: "elemStep es es' \<Longrightarrow> elemStep es' es'' \<Longrightarrow> elemStep es es''"
  unfolding elemStep_def by (auto; force)

lemma elemStep_update:
  assumes "name e = name (es ! i)" "discovered (es ! i) \<longrightarrow> discovered e"
  shows "elemStep es (es[i := e])"
proof (cases "i < length es")
  case True
  with assms show ?thesis by (auto simp: elemStep_def nth_list_update)
next
  case False
  then have "es[i := e] = es" by (simp add: list_update_beyond)
  then show ?thesis by (simp add: elemStep_refl)
qed

lemma elemStep_count: "elemStep es (es[i := (es ! i)\<lparr>creationCount := creationCount (es ! i) + 1\<rparr>])"
  by (rule elemStep_update) simp_all

lemma elemStep_discover:
  "elemStep es (es[i := (es ! i)\<lparr>discovered := True, creationCount := creationCount (es ! i) + 1\<rparr>])"
  by (rule elemStep_update) simp_all

lemma elemStep_createResult: "elemStep (elements g) (elements (createResult g dragged other result time))"
  by (simp add: createResult_def elemStep_refl elemStep_discover split: option.splits)

lemma elemStep_spawnObject: "elemStep (elements g) (elements (spawnObject g i time))"
  by (simp add: spawnObject_def elemStep_count)

lemma elemStep_scanObjects:
  "elemStep (elements g) (elements (fst (scanObjects g dragged time cands)))"
  using scanObjects_cases [of g dragged time cands]
proof (elim disjE exE conjE)
  assume "marksOnly g (fst (scanObjects g dragged time cands))"
  then show ?thesis by (simp add: marksOnly_def elemStep_refl)
next
  fix g1 other
  assume m: "marksOnly g g1"
    and s: "scanObjects g dragged time cands
           = (createResult g1 dragged other
                (getResult (name (elements g ! element (store g dragged)))
                           (name (elements g ! element (store g other)))) time,
              [dragged, other])"
  from m have "elements g1 = elements g" by (simp add: marksOnly_def)
  with elemStep_createResult [of g1] show ?thesis by (simp add: s)
qed

lemma elements_checkCollisions:
  "elements (checkCollisions g dragged time) = elements (fst (scanObjects g dragged time (objects g)))"
  by (simp add: checkCollisions_def split: prod.splits)

lemma elemStep_checkCollisions: "elemStep (elements g) (elements (checkCollisions g dragged time))"
  by (simp add: elements_checkCollisions elemStep_scanObjects)

lemma sidebarClick_cases:
  "sidebarClick g time mousePos i d es = g
   \<or> (\<exists>j. length (objects g) < maxObjects \<and> sidebarClick g time mousePos i d es = spawnObject g j time)"
  by (induction es arbitrary: i d) auto

lemma startDragging_cases:
  "startDragging g mousePos objs = g
   \<or> (\<exists>obj \<in> set objs. startDragging g mousePos objs
         = g\<lparr>store := (store g)(obj := (store g obj)\<lparr>isDragging := True\<rparr>),
             draggingObject := Some obj\<rparr>)"
proof (induction objs)
  case Nil
  show ?case by simp
next
  case (Cons a objs)
  show ?case
  proof (cases "contains (getGlobalBounds (sprite (store g a))) mousePos")
    case True
    then show ?thesis by (intro disjI2 bexI [of _ a]) (simp_all del: fun_upd_apply)
  next
    case False
    with Cons.IH show ?thesis by (simp del: fun_upd_apply) blast
  qed
qed

lemma elements_startDragging: "elements (startDragging g mousePos objs) = elements g"
  using startDragging_cases [of g mousePos objs] by auto

lemma objects_startDragging: "objects (startDragging g mousePos objs) = objects g"
  using startDragging_cases [of g mousePos objs] by auto

lemma nextAddr_startDragging: "nextAddr (startDragging g mousePos objs) = nextAddr g"
  using startDragging_cases [of g mousePos objs] by auto

lemma elemStep_mousePressed: "elemStep (elements g) (elements (mousePressed g time mousePos))"
  using sidebarClick_cases [of g time mousePos 0 0 "elements g"]
  by (auto simp: mousePressed_def Let_def elements_startDragging elemStep_refl elemStep_spawnObject)

lemma elemStep_mouseReleased: "elemStep (elements g) (elements (mouseReleased g time))"
  by (simp add: mouseReleased_def Let_def elemStep_refl elemStep_checkCollisions split: option.splits)

lemma elements_mouseMoved: "elements (mouseMoved g mousePos) = elements g"
  by (simp add: mouseMoved_def split: option.splits)

lemma elements_scrollSidebar: "elements (scrollSidebar g delta mousePos) = elements g"
  by (simp add: scrollSidebar_def Let_def)

lemma bookHandleInput_release:
  "bookHandleInput b (MouseButtonReleased button x y) = b"
  by (simp add: bookHandleInput_def)

lemma elemStep_mousePressed_book:
  "elemStep (elements g) (elements (mousePressed (g\<lparr>bookOpen := b\<rparr>) time mousePos))"
  using elemStep_mousePressed [of "g\<lparr>bookOpen := b\<rparr>"] by simp

lemma elemStep_mouseReleased_book:
  "elemStep (elements g) (elements (mouseReleased (g\<lparr>bookOpen := b\<rparr>) time))"
  using elemStep_mouseReleased [of "g\<lparr>bookOpen := b\<rparr>"] by simp

lemma elemStep_handleEvent: "elemStep (elements g) (elements (handleEvent g time event))"
  by (cases event)
     (simp_all add: handleEvent_def Let_def elemStep_refl elements_mouseMoved
        elements_scrollSidebar elemStep_mousePressed_book elemStep_mouseReleased_book)

lemma elements_update: "elements (update g time) = elements g"
  by (simp add: update_def)

lemma elemStep_step: "elemStep (elements g) (elements (step g input))"
  by (cases input) (simp_all add: elemStep_handleEvent elements_update elemStep_refl)

lemma elemStep_run: "elemStep (elements g) (elements (run g inputs))"
  unfolding run_def
proof (induction inputs arbitrary: g)
  case Nil
  show ?case by (simp add: elemStep_refl)
next
  case (Cons input inputs)
  from elemStep_step [of g input] Cons.IH [of "step g input"] show ?case
    by (simp add: elemStep_trans)
qed

subsection \<open>The objects\<close>

lemma objStep_refl: "objStep g g"
  by (simp add: objStep_def noNewDragger_def)

lemma objStep_trans:
  assumes "objStep g g'" "objStep g' g''"
  shows "objStep g g''"
proof -
  from assms have n: "nextAddr g \<le> nextAddr g'" "nextAddr g' \<le> nextAddr g''"
    and s: "set (objects g') \<subseteq> set (objects g) \<union> {nextAddr g ..< nextAddr g'}"
      "set (objects g'') \<subseteq> set (objects g') \<union> {nextAddr g' ..< nextAddr g''}"
    and d: "draggingObject g' = draggingObject g" "draggingObject g'' = draggingObject g'"
    and b: "bookOpen g' = bookOpen g" "bookOpen g'' = bookOpen g'"
    and nd: "noNewDragger g g'" "noNewDragger g' g''"
    by (simp_all add: objStep_def)
  from n s have "set (objects g'') \<subseteq> set (objects g) \<union> {nextAddr g ..< nextAddr g''}"
    by fastforce
  moreover from nd have "noNewDragger g g''" unfolding noNewDragger_def by blast
  ultimately show ?thesis using n d b by (simp add: objStep_def)
qed

lemma objStep_marksOnly: "marksOnly g g' \<Longrightarrow> objStep g g'"
  by (simp add: objStep_def noNewDragger_def marksOnly_store) (simp add: marksOnly_def)

lemma objStep_filter: "objStep g (g\<lparr>objects := filter P (objects g)\<rparr>)"
  by (simp add: objStep_def noNewDragger_def)

lemma mkGameObject_isDragging [simp]: "isDragging (mkGameObject i tex path pos time) = False"
  by (simp add: mkGameObject_def)

lemma objStep_spawnObject: "objStep g (spawnObject g i time)"
  by (auto simp: objStep_def noNewDragger_def spawnObject_def)

lemma objStep_createResult: "objStep g (createResult g dragged other result time)"
  by (auto simp: objStep_def noNewDragger_def createResult_def split: option.splits)

lemma length_createResult:
  "length (objects (createResult g dragged other result time)) \<le> Suc (length (objects g))"
  by (simp add: createResult_def split: option.splits)

lemma set_createResult:
  "set (objects g) \<subseteq> set (objects (createResult g dragged other result time))"
  by (auto simp: createResult_def split: option.splits)

lemma length_filter_removed:
  assumes "other \<in> set objs" "set objs \<subseteq> set objs'" "length objs' \<le> Suc (length objs)"
  shows "length (filter (\<lambda>obj. obj \<notin> set [dragged, other]) objs') \<le> length objs"
proof -
  from assms have "other \<in> set objs'" by blast
  then have "length (filter (\<lambda>obj. obj \<notin> set [dragged, other]) objs') < length objs'"
    by (intro length_filter_less [of other]) simp_all
  with assms(3) show ?thesis by linarith
qed

lemma checkCollisions_cases:
  "marksOnly g (checkCollisions g dragged time)
   \<or> (\<exists>g1 other. marksOnly g g1 \<and> other \<in> set (objects g) \<and> combinable g dragged other
         \<and> checkCollisions g dragged time
           = (createResult g1 dragged other
                (getResult (name (elements g ! element (store g dragged)))
                           (name (elements g ! element (store g other)))) time)
             \<lparr>objects := filter (\<lambda>obj. obj \<notin> set [dragged, other])
                 (objects (createResult g1 dragged other
                    (getResult (name (elements g ! element (store g dragged)))
                               (name (elements g ! element (store g other)))) time))\<rparr>)"
proof -
  obtain g' rm where s: "scanObjects g dragged time (objects g) = (g', rm)" by force
  from scanObjects_cases [of g dragged time "objects g"] show ?thesis
  proof (elim disjE exE conjE)
    assume "snd (scanObjects g dragged time (objects g)) = []"
      and "marksOnly g (fst (scanObjects g dragged time (objects g)))"
    with s show ?thesis by (simp add: checkCollisions_def)
  next
    fix g1 other
    assume "marksOnly g g1" "other \<in> set (objects g)" "combinable g dragged other"
      and "scanObjects g dragged time (objects g)
           = (createResult g1 dragged other
                (getResult (name (elements g ! element (store g dragged)))
                           (name (elements g ! element (store g other)))) time,
              [dragged, other])"
    then show ?thesis
      by (intro disjI2 exI [of _ g1] exI [of _ other]) (simp add: checkCollisions_def)
  qed
qed

lemma objStep_checkCollisions: "objStep g (checkCollisions g dragged time)"
  using checkCollisions_cases [of g dragged time]
proof (elim disjE exE conjE)
  assume "marksOnly g (checkCollisions g dragged time)"
  then show ?thesis by (rule objStep_marksOnly)
next
  fix g1 other
  let ?c = "createResult g1 dragged other
              (getResult (name (elements g ! element (store g dragged)))
                         (name (elements g ! element (store g other)))) time"
  assume m: "marksOnly g g1"
    and c: "checkCollisions g dragged time
            = ?c\<lparr>objects := filter (\<lambda>obj. obj \<notin> set [dragged, other]) (objects ?c)\<rparr>"
  have 1: "objStep g g1" using m by (rule objStep_marksOnly)
  have 2: "objStep g1 ?c" by (rule objStep_createResult)
  have 3: "objStep ?c (?c\<lparr>objects := filter (\<lambda>obj. obj \<notin> set [dragged, other]) (objects ?c)\<rparr>)"
    by (rule objStep_filter)
  show ?thesis unfolding c by (rule objStep_trans [OF objStep_trans [OF 1 2] 3])
qed

lemma length_checkCollisions:
  "length (objects (checkCollisions g dragged time)) \<le> length (objects g)"
  using checkCollisions_cases [of g dragged time]
proof (elim disjE exE conjE)
  assume "marksOnly g (checkCollisions g dragged time)"
  then show ?thesis by (simp add: marksOnly_def)
next
  fix g1 other
  let ?c = "createResult g1 dragged other
              (getResult (name (elements g ! element (store g dragged)))
                         (name (elements g ! element (store g other)))) time"
  assume m: "marksOnly g g1" and o: "other \<in> set (objects g)"
    and c: "checkCollisions g dragged time
            = ?c\<lparr>objects := filter (\<lambda>obj. obj \<notin> set [dragged, other]) (objects ?c)\<rparr>"
  from m have eq: "objects g1 = objects g" by (simp add: marksOnly_def)
  have "length (filter (\<lambda>obj. obj \<notin> set [dragged, other]) (objects ?c)) \<le> length (objects g)"
    using o set_createResult [of g1 dragged other _ time] length_createResult [of g1 dragged other _ time]
    unfolding eq by (rule length_filter_removed)
  then show ?thesis unfolding c by simp
qed

lemma allocated_objStep:
  assumes "allocated g" "objStep g g'"
  shows "allocated g'"
proof -
  from assms(2) have n: "nextAddr g \<le> nextAddr g'"
    and s: "set (objects g') \<subseteq> set (objects g) \<union> {nextAddr g ..< nextAddr g'}"
    and d: "draggingObject g' = draggingObject g"
    by (simp_all add: objStep_def)
  have "a < nextAddr g'" if "a \<in> set (objects g')" for a
  proof -
    from that s have "a \<in> set (objects g) \<or> a < nextAddr g'" by auto
    with assms(1) n show ?thesis by (auto simp: allocated_def)
  qed
  moreover have "d' < nextAddr g'" if "draggingObject g' = Some d'" for d'
    using that d assms(1) n by (auto simp: allocated_def)
  ultimately show ?thesis by (simp add: allocated_def)
qed

lemma singleDragger_objStep:
  assumes "singleDragger g" "objStep g g'"
  shows "singleDragger g'"
  using assms unfolding singleDragger_def objStep_def noNewDragger_def by auto

lemma sidebarClick_objStep: "objStep g (sidebarClick g time mousePos i d es)"
  using sidebarClick_cases [of g time mousePos i d es]
  by (auto simp: objStep_refl objStep_spawnObject)

lemma sidebarClick_capacity:
  "withinCapacity g \<Longrightarrow> withinCapacity (sidebarClick g time mousePos i d es)"
  using sidebarClick_cases [of g time mousePos i d es]
  by (auto simp: withinCapacity_def spawnObject_def)

lemma set_erase: "set (erase xs i) \<subseteq> set xs"
  unfolding erase_def using set_take_subset [of i xs] set_drop_subset [of "Suc i" xs] by auto

lemma set_evictLoop: "set (evictLoop st objs) \<subseteq> set objs"
proof (induction st objs rule: evictLoop.induct)
  case (1 st objs)
  show ?case
  proof (cases "length objs > maxObjects")
    case True
    from "1.IH" [OF True] set_erase [of objs] True show ?thesis
      by (subst evictLoop.simps) auto
  next
    case False
    then show ?thesis by (subst evictLoop.simps) simp
  qed
qed

lemma resetColors_marks: "\<exists>c. resetColors objs st a = setColor c (st a)"
  unfolding resetColors_def
proof (induction objs arbitrary: st)
  case Nil
  have "st a = setColor (color (sprite (st a))) (st a)" by (simp add: setColor_def)
  then show ?case by (simp only: fold.simps id_apply) (rule exI)
next
  case (Cons obj objs)
  from Cons.IH [of "st(obj := setColor White (st obj))"] show ?case
    by (cases "a = obj") auto
qed

lemma resetColors_isDragging: "isDragging (resetColors objs st a) = isDragging (st a)"
  using resetColors_marks [of objs st a] by auto

lemma objStep_update: "objStep g (update g time)"
  using set_evictLoop [of "store g" "objects g"]
  by (auto simp: objStep_def noNewDragger_def update_def resetColors_isDragging)

lemma capacity_update: "withinCapacity (update g time)"
  by (simp add: withinCapacity_def update_def evictLoop_length)

lemma objStep_mouseMoved: "objStep g (mouseMoved g mousePos)"
  by (auto simp: objStep_def noNewDragger_def mouseMoved_def setPosition_def split: option.splits)

lemma objects_mouseMoved: "objects (mouseMoved g mousePos) = objects g"
  by (simp add: mouseMoved_def split: option.splits)

lemma objStep_scrollSidebar: "objStep g (scrollSidebar g delta mousePos)"
  by (auto simp: objStep_def noNewDragger_def scrollSidebar_def Let_def)

lemma objects_scrollSidebar: "objects (scrollSidebar g delta mousePos) = objects g"
  by (simp add: scrollSidebar_def Let_def)

text \<open>The invariant of every run: allocation and capacity.\<close>

lemma allocated_startDragging: "allocated g \<Longrightarrow> allocated (startDragging g mousePos (objects g))"
  using startDragging_cases [of g mousePos "objects g"]
  by (auto simp: allocated_def)

lemma allocated_mousePressed: "allocated g \<Longrightarrow> allocated (mousePressed g time mousePos)"
  unfolding mousePressed_def Let_def
  by (intro allocated_startDragging allocated_objStep [OF _ sidebarClick_objStep])

lemma capacity_mousePressed: "withinCapacity g \<Longrightarrow> withinCapacity (mousePressed g time mousePos)"
  using sidebarClick_capacity [of g time mousePos 0 0 "elements g"]
  by (simp add: mousePressed_def Let_def withinCapacity_def objects_startDragging)

lemma allocated_release_end:
  "allocated g \<Longrightarrow> allocated (g\<lparr>store := st, draggingObject := None\<rparr>)"
  by (simp add: allocated_def)

lemma allocated_mouseReleased: "allocated g \<Longrightarrow> allocated (mouseReleased g time)"
proof (cases "draggingObject g")
  case None
  then show "allocated g \<Longrightarrow> ?thesis" by (simp add: mouseReleased_def)
next
  case (Some d)
  assume a: "allocated g"
  let ?g1 = "if intersects (getGlobalBounds (sprite (store g d))) trashBinBounds
             then g\<lparr>objects := filter (\<lambda>obj. obj \<noteq> d) (objects g)\<rparr>
             else checkCollisions g d time"
  have "objStep g ?g1" by (simp add: objStep_filter objStep_checkCollisions)
  with a have "allocated ?g1" by (rule allocated_objStep)
  then have "allocated (?g1\<lparr>store := (store ?g1)(d := (store ?g1 d)\<lparr>isDragging := False\<rparr>),
                             draggingObject := None\<rparr>)"
    by (rule allocated_release_end)
  with Some show ?thesis by (simp add: mouseReleased_def Let_def)
qed

lemma capacity_mouseReleased: "withinCapacity g \<Longrightarrow> withinCapacity (mouseReleased g time)"
proof (cases "draggingObject g")
  case None
  then show "withinCapacity g \<Longrightarrow> ?thesis" by (simp add: mouseReleased_def)
next
  case (Some d)
  assume a: "withinCapacity g"
  have "length (filter (\<lambda>obj. obj \<noteq> d) (objects g)) \<le> length (objects g)"
    by (rule length_filter_le)
  with a length_checkCollisions [of g d time] Some show ?thesis
    by (auto simp: mouseReleased_def Let_def withinCapacity_def simp del: length_filter_le)
qed

lemma sound_bookOpen [simp]: "sound (g\<lparr>bookOpen := b\<rparr>) = sound g"
  by (simp add: sound_def allocated_def withinCapacity_def)

lemma sound_handleEvent: "sound g \<Longrightarrow> sound (handleEvent g time event)"
proof (cases event)
  case (MouseWheelScrolled delta x y)
  assume "sound g"
  then have "sound (scrollSidebar g delta (mapPixelToCoords x y))"
    using allocated_objStep [OF _ objStep_scrollSidebar, of g delta "mapPixelToCoords x y"]
    by (simp add: sound_def withinCapacity_def objects_scrollSidebar)
  with MouseWheelScrolled show ?thesis by (simp add: handleEvent_def Let_def)
next
  case (MouseButtonPressed button x y)
  assume "sound g"
  then have "sound (mousePressed (g\<lparr>bookOpen := b\<rparr>) time m)" for b m
    using allocated_mousePressed [of "g\<lparr>bookOpen := b\<rparr>" time m]
      capacity_mousePressed [of "g\<lparr>bookOpen := b\<rparr>" time m]
    by (simp add: sound_def allocated_def withinCapacity_def)
  with MouseButtonPressed \<open>sound g\<close> show ?thesis by (simp add: handleEvent_def Let_def)
next
  case (MouseButtonReleased button x y)
  assume "sound g"
  then have "sound (mouseReleased (g\<lparr>bookOpen := b\<rparr>) time)" for b
    using allocated_mouseReleased [of "g\<lparr>bookOpen := b\<rparr>" time]
      capacity_mouseReleased [of "g\<lparr>bookOpen := b\<rparr>" time]
    by (simp add: sound_def allocated_def withinCapacity_def)
  with MouseButtonReleased \<open>sound g\<close> show ?thesis by (simp add: handleEvent_def Let_def)
next
  case (MouseMoved x y)
  assume "sound g"
  then have "sound (mouseMoved (g\<lparr>bookOpen := b\<rparr>) m)" for b m
    using allocated_objStep [OF _ objStep_mouseMoved, of "g\<lparr>bookOpen := b\<rparr>" m]
    by (simp add: sound_def withinCapacity_def objects_mouseMoved allocated_def)
  with MouseMoved \<open>sound g\<close> show ?thesis by (simp add: handleEvent_def Let_def)
qed (simp_all add: handleEvent_def Let_def)

lemma sound_update: "sound g \<Longrightarrow> sound (update g time)"
  using allocated_objStep [OF _ objStep_update, of g time] capacity_update [of g time]
  by (simp add: sound_def)

lemma sound_newGame: "sound (newGame texs)"
  by (simp add: sound_def allocated_def withinCapacity_def newGame_def)

lemma sound_run: "sound g \<Longrightarrow> sound (run g inputs)"
  unfolding run_def
proof (induction inputs arbitrary: g)
  case Nil
  then show ?case by simp
next
  case (Cons input inputs)
  from Cons.prems have "sound (step g input)"
    by (cases input) (simp_all add: sound_handleEvent sound_update)
  from Cons.IH [OF this] show ?case by simp
qed

section \<open>The claims about the catalog\<close>

text \<open>The definitions unfolded to run the model on concrete inputs.\<close>

lemmas evalDefs = run_def handleEvent_def bookHandleInput_def mapPixelToCoords_def contains_def
  intersects_def bookIconBounds_def exitButtonBounds_def trashBinBounds_def newGame_def
  mousePressed_def initialElements_def mkElement_def windowSize_def maxObjects_def
  spawnObject_def mkGameObject_def getGlobalBounds_def fallbackTextures_def mouseReleased_def
  mouseMoved_def setPosition_def setColor_def Let_def checkCollisions_def createResult_def
  markInvalid_def getResult_def combinations_def rules_def midpoint2_def White_def
  update_def resetColors_def scrollSidebar_def scrollSpeed_def

lemma catalogIntact_elemStep:
  assumes "catalogIntact g" "elemStep (elements g) (elements g')"
  shows "catalogIntact g'"
proof -
  from assms(2) have "map name (elements g') = map name (elements g)"
    by (intro nth_equalityI) (simp_all add: elemStep_def)
  with assms(1) show ?thesis by (simp add: catalogIntact_def)
qed

lemma catalogIntact_run: "catalogIntact (run (newGame texs) inputs)"
proof -
  have "catalogIntact (newGame texs)" by (simp add: catalogIntact_def newGame_def)
  then show ?thesis using elemStep_run by (rule catalogIntact_elemStep)
qed





lemma initial_discovered_basic:
  "\<forall>e \<in> set initialElements. creationCount e = 0 \<and> (discovered e \<longrightarrow> name e \<in> set basicElements)"
  by (simp add: initialElements_def mkElement_def basicElements_def)

text \<open>
  The counts of a run. The count of an element is a word of 32 bits: after \<open>2^31 - 1\<close>
  increments the next one makes it negative.
\<close>

lemma spawnObject_wraps:
  assumes "i < length (elements g)" "creationCount (elements g ! i) = 2147483647"
  shows "sint (creationCount (elements (spawnObject g i time) ! i)) = - 2147483648"
  using assms by (simp add: spawnObject_def)




















text \<open>
  Claim C8. From any state and over any sequence of events and updates, an element that
  is discovered stays discovered (and keeps its place and name in the vector).
\<close>

theorem discovery_monotonic:
  assumes "i < length (elements g)" and "discovered (elements g ! i)"
  shows "length (elements (run g inputs)) = length (elements g)
         \<and> name (elements (run g inputs) ! i) = name (elements g ! i)
         \<and> discovered (elements (run g inputs) ! i)"
  using elemStep_run [of g inputs] assms by (simp add: elemStep_def)

theorem discovery_monotonic_witness:
  "0 < length (elements (newGame fallbackTextures))
   \<and> discovered (elements (newGame fallbackTextures) ! 0)
   \<and> discovered (elements (run (newGame fallbackTextures) steamRun) ! 0)"
proof -
  have h: "0 < length (elements (newGame fallbackTextures))"
    "discovered (elements (newGame fallbackTextures) ! 0)"
    by (simp_all add: newGame_def initialElements_def mkElement_def)
  from discovery_monotonic [OF h, of steamRun] h show ?thesis by blast
qed

section \<open>The claims about a release\<close>

lemma sound_run_newGame: "sound (run (newGame texs) inputs)"
  using sound_newGame by (rule sound_run)

lemma checkCollisions_first_hit:
  assumes c: "catalogIntact g" and a: "allocated g" and d: "dragged < nextAddr g"
    and o: "objects g = pre @ other # post"
    and pre: "\<forall>p \<in> set pre. \<not> combinable g dragged p"
    and hit: "combinable g dragged other"
  shows "\<exists>i < length (elements g).
           name (elements g ! i) = getResult (name (elements g ! element (store g dragged)))
                                            (name (elements g ! element (store g other)))
         \<and> elements (checkCollisions g dragged time)
             = (elements g)[i := (elements g ! i)\<lparr>discovered := True,
                                                  creationCount := creationCount (elements g ! i) + 1\<rparr>]
         \<and> objects (checkCollisions g dragged time)
             = filter (\<lambda>obj. obj \<noteq> dragged \<and> obj \<noteq> other) (objects g) @ [nextAddr g]
         \<and> store (checkCollisions g dragged time) (nextAddr g)
             = mkGameObject i
                 (textures g (getResult (name (elements g ! element (store g dragged)))
                                        (name (elements g ! element (store g other)))))
                 (''assets/'' @ getResult (name (elements g ! element (store g dragged)))
                                          (name (elements g ! element (store g other))) @ ''.png'')
                 (midpoint2 (position (sprite (store g dragged))) (position (sprite (store g other))))
                 time
         \<and> nextAddr (checkCollisions g dragged time) = Suc (nextAddr g)"
proof -
  let ?r = "getResult (name (elements g ! element (store g dragged)))
                      (name (elements g ! element (store g other)))"
  from scanObjects_first_hit [OF pre hit, of time post] obtain g1 where
    m: "marksOnly g g1"
    and s: "scanObjects g dragged time (objects g) = (createResult g1 dragged other ?r time, [dragged, other])"
    unfolding o by blast
  from m have eq: "elements g1 = elements g" "objects g1 = objects g" "nextAddr g1 = nextAddr g"
    "textures g1 = textures g" by (simp_all add: marksOnly_def)
  from hit have r: "?r \<noteq> []" by (simp add: combinable_def)
  from findElement_result [OF c r] obtain i where
    i: "i < length (elements g)" "findElementFrom 0 (elements g) ?r = Some i"
       "name (elements g ! i) = ?r" by blast
  from i(2) have f1: "findElementFrom 0 (elements g1) ?r = Some i" by (simp add: eq)
  have other: "other < nextAddr g" using a o by (simp add: allocated_def)
  have cc: "checkCollisions g dragged time
            = (createResult g1 dragged other ?r time)
              \<lparr>objects := filter (\<lambda>obj. obj \<notin> set [dragged, other])
                                 (objects (createResult g1 dragged other ?r time))\<rparr>"
    by (simp add: checkCollisions_def s)
  have "elements (checkCollisions g dragged time)
          = (elements g)[i := (elements g ! i)\<lparr>discovered := True,
                                               creationCount := creationCount (elements g ! i) + 1\<rparr>]"
    unfolding cc createResult_unfold [OF f1] by (simp add: eq)
  moreover have "objects (checkCollisions g dragged time)
          = filter (\<lambda>obj. obj \<noteq> dragged \<and> obj \<noteq> other) (objects g) @ [nextAddr g]"
    unfolding cc createResult_unfold [OF f1] using d other by (simp add: eq)
  moreover have "store (checkCollisions g dragged time) (nextAddr g)
          = mkGameObject i (textures g ?r) (''assets/'' @ ?r @ ''.png'')
              (midpoint2 (position (sprite (store g dragged))) (position (sprite (store g other)))) time"
    unfolding cc createResult_unfold [OF f1] by (simp add: eq marksOnly_store [OF m])
  moreover have "nextAddr (checkCollisions g dragged time) = Suc (nextAddr g)"
    unfolding cc createResult_unfold [OF f1] by (simp add: eq)
  ultimately show ?thesis using i(1) i(3) by blast
qed

text \<open>
  Claim C1. In a state of a run where \<open>dragged\<close> is the dragged object, let \<open>other\<close>
  be the first object of the vector that is not the dragged one, is not being dragged,
  overlaps it and has a registered result with it. Then \<open>checkCollisions\<close> marks the
  result element as discovered and adds one to its count, leaves every other element as
  it was, removes both objects from the vector and pushes one new object, at a fresh
  address: an instance of the result element at the midpoint of the two positions,
  created at the time of the release. Nothing else is combined.
\<close>

theorem first_combination_resolved:
  assumes "g = run (newGame texs) inputs" and "draggingObject g = Some dragged"
    and "objects g = pre @ other # post"
    and "\<forall>p \<in> set pre. \<not> combinable g dragged p"
    and "combinable g dragged other"
  shows "\<exists>i < length (elements g).
           name (elements g ! i) = getResult (name (elements g ! element (store g dragged)))
                                            (name (elements g ! element (store g other)))
         \<and> elements (checkCollisions g dragged time)
             = (elements g)[i := (elements g ! i)\<lparr>discovered := True,
                                                  creationCount := creationCount (elements g ! i) + 1\<rparr>]
         \<and> objects (checkCollisions g dragged time)
             = filter (\<lambda>obj. obj \<noteq> dragged \<and> obj \<noteq> other) (objects g) @ [nextAddr g]
         \<and> nextAddr g \<notin> set (objects g)
         \<and> store (checkCollisions g dragged time) (nextAddr g)
             = mkGameObject i
                 (textures g (getResult (name (elements g ! element (store g dragged)))
                                        (name (elements g ! element (store g other)))))
                 (''assets/'' @ getResult (name (elements g ! element (store g dragged)))
                                          (name (elements g ! element (store g other))) @ ''.png'')
                 (midpoint2 (position (sprite (store g dragged))) (position (sprite (store g other))))
                 time"
proof -
  have c: "catalogIntact g" unfolding assms(1) by (rule catalogIntact_run)
  have "sound g" unfolding assms(1) by (rule sound_run_newGame)
  then have a: "allocated g" by (simp add: sound_def)
  with assms(2) have d: "dragged < nextAddr g" by (simp add: allocated_def)
  from a have "nextAddr g \<notin> set (objects g)" by (auto simp: allocated_def)
  with checkCollisions_first_hit [OF c a d assms(3-5), of time] show ?thesis by blast
qed

lemma steamRun_state:
  "objects (run (newGame fallbackTextures) steamRun) = [0, 1]"
  "draggingObject (run (newGame fallbackTextures) steamRun) = Some 0"
  "nextAddr (run (newGame fallbackTextures) steamRun) = 2"
  "combinable (run (newGame fallbackTextures) steamRun) 0 1"
  by (simp_all add: steamRun_def evalDefs combinable_def)

theorem first_combination_resolved_witness:
  "draggingObject (run (newGame fallbackTextures) steamRun) = Some 0
   \<and> objects (run (newGame fallbackTextures) steamRun) = [0] @ 1 # []
   \<and> \<not> combinable (run (newGame fallbackTextures) steamRun) 0 0
   \<and> combinable (run (newGame fallbackTextures) steamRun) 0 1
   \<and> objects (checkCollisions (run (newGame fallbackTextures) steamRun) 0 7) = [2]"
proof -
  let ?g = "run (newGame fallbackTextures) steamRun"
  have h: "draggingObject ?g = Some 0" "objects ?g = [0] @ 1 # []"
    "\<forall>p \<in> set [0]. \<not> combinable ?g 0 p" "combinable ?g 0 1"
    using steamRun_state by (simp_all add: combinable_def)
  from first_combination_resolved [OF refl h, of 7]
  have "objects (checkCollisions ?g 0 7) = filter (\<lambda>obj. obj \<noteq> 0 \<and> obj \<noteq> 1) (objects ?g) @ [nextAddr ?g]"
    by blast
  then have "objects (checkCollisions ?g 0 7) = [2]" by (simp add: steamRun_state)
  with h show ?thesis by (simp add: combinable_def)
qed


text \<open>
  Claim C9. A left release with the dragged object over the trash bin removes that
  pointer from the vector (exactly one entry of a vector without repetition) and ends
  the drag. No element changes, no object is allocated, no mark is set and no other
  object of the store changes.
\<close>

theorem trash_release_removes_dragged_only:
  assumes "\<not> bookOpen g" and "draggingObject g = Some d"
    and "intersects (getGlobalBounds (sprite (store g d))) trashBinBounds"
  shows "objects (handleEvent g time (MouseButtonReleased Mouse_Left x y))
           = filter (\<lambda>obj. obj \<noteq> d) (objects g)
         \<and> elements (handleEvent g time (MouseButtonReleased Mouse_Left x y)) = elements g
         \<and> (\<forall>a. a \<noteq> d \<longrightarrow>
               store (handleEvent g time (MouseButtonReleased Mouse_Left x y)) a = store g a)
         \<and> nextAddr (handleEvent g time (MouseButtonReleased Mouse_Left x y)) = nextAddr g
         \<and> invalidMarkTime (handleEvent g time (MouseButtonReleased Mouse_Left x y)) = invalidMarkTime g
         \<and> invalidMarkPos (handleEvent g time (MouseButtonReleased Mouse_Left x y)) = invalidMarkPos g
         \<and> draggingObject (handleEvent g time (MouseButtonReleased Mouse_Left x y)) = None
         \<and> (distinct (objects g) \<and> d \<in> set (objects g) \<longrightarrow>
               Suc (length (objects (handleEvent g time (MouseButtonReleased Mouse_Left x y))))
                 = length (objects g))"
proof -
  have l: "Suc (length (filter (\<lambda>obj. obj \<noteq> d) (objects g))) = length (objects g)"
    if "distinct (objects g)" "d \<in> set (objects g)"
  proof -
    have "filter (\<lambda>obj. obj \<noteq> d) (objects g) = remove1 d (objects g)"
      using that(1) by (simp add: distinct_remove1_removeAll removeAll_filter_not_eq) metis
    then show ?thesis using that(2) by (simp add: length_remove1) (cases "objects g"; simp)
  qed
  show ?thesis using assms l
    by (simp add: handleEvent_def Let_def mouseReleased_def bookHandleInput_release)
qed

lemma trashRun_state:
  "\<not> bookOpen (run (newGame fallbackTextures) trashRun)"
  "draggingObject (run (newGame fallbackTextures) trashRun) = Some 0"
  "intersects (getGlobalBounds (sprite (store (run (newGame fallbackTextures) trashRun) 0))) trashBinBounds"
  "objects (run (newGame fallbackTextures) trashRun) = [0]"
  by (simp_all add: trashRun_def evalDefs)

theorem trash_release_removes_dragged_only_witness:
  "\<not> bookOpen (run (newGame fallbackTextures) trashRun)
   \<and> draggingObject (run (newGame fallbackTextures) trashRun) = Some 0
   \<and> intersects (getGlobalBounds (sprite (store (run (newGame fallbackTextures) trashRun) 0))) trashBinBounds
   \<and> objects (handleEvent (run (newGame fallbackTextures) trashRun) 5 (MouseButtonReleased Mouse_Left 40 550)) = []
   \<and> elements (handleEvent (run (newGame fallbackTextures) trashRun) 5 (MouseButtonReleased Mouse_Left 40 550))
       = elements (run (newGame fallbackTextures) trashRun)"
proof -
  let ?g = "run (newGame fallbackTextures) trashRun"
  from trash_release_removes_dragged_only [OF trashRun_state(1-3), of 5 40 550]
  have "objects (handleEvent ?g 5 (MouseButtonReleased Mouse_Left 40 550))
          = filter (\<lambda>obj. obj \<noteq> 0) (objects ?g)"
    and e: "elements (handleEvent ?g 5 (MouseButtonReleased Mouse_Left 40 550)) = elements ?g"
    by blast+
  then have "objects (handleEvent ?g 5 (MouseButtonReleased Mouse_Left 40 550)) = []"
    by (simp add: trashRun_state(4))
  with e trashRun_state(1-3) show ?thesis by blast
qed

lemma sidebarClick_full:
  "maxObjects \<le> length (objects g) \<Longrightarrow> sidebarClick g time mousePos i d es = g"
  by (induction es arbitrary: i d) simp_all

lemma mousePressed_full:
  assumes "maxObjects \<le> length (objects g)"
  shows "objects (mousePressed g time mousePos) = objects g"
    and "elements (mousePressed g time mousePos) = elements g"
    and "nextAddr (mousePressed g time mousePos) = nextAddr g"
  using sidebarClick_full [OF assms]
  by (simp_all add: mousePressed_def objects_startDragging elements_startDragging nextAddr_startDragging)

text \<open>
  Claim C4 says that a combination may push the world over \<open>maxObjects\<close>. It never
  does: no run reaches a state with more than \<open>maxObjects\<close> objects.
\<close>

theorem registry_never_exceeds_capacity:
  "\<not> (\<exists>texs inputs. maxObjects < length (objects (run (newGame texs) inputs)))"
proof
  assume "\<exists>texs inputs. maxObjects < length (objects (run (newGame texs) inputs))"
  then obtain texs inputs where "maxObjects < length (objects (run (newGame texs) inputs))"
    by blast
  moreover have "sound (run (newGame texs) inputs)" by (rule sound_run_newGame)
  ultimately show False by (simp add: sound_def withinCapacity_def)
qed

text \<open>
  Claim C4, amended. With \<open>maxObjects\<close> objects or more, a mouse press adds no object,
  allocates nothing and leaves every element (so every count) as it was. A combination
  is not gated by the size of the world: whenever an object combines with the dragged
  one, the result object is pushed. But the combination takes its inputs out of the
  vector, so \<open>checkCollisions\<close> never makes the vector longer.
\<close>

theorem spawn_gated_combination_not:
  "(maxObjects \<le> length (objects g) \<longrightarrow>
      objects (handleEvent g time (MouseButtonPressed button x y)) = objects g
      \<and> elements (handleEvent g time (MouseButtonPressed button x y)) = elements g
      \<and> nextAddr (handleEvent g time (MouseButtonPressed button x y)) = nextAddr g)
   \<and> (catalogIntact g \<and> allocated g \<and> dragged < nextAddr g
        \<and> (\<exists>other \<in> set (objects g). combinable g dragged other) \<longrightarrow>
      nextAddr g \<notin> set (objects g)
      \<and> nextAddr g \<in> set (objects (checkCollisions g dragged time)))
   \<and> length (objects (checkCollisions g dragged time)) \<le> length (objects g)"
proof (intro conjI impI)
  assume full: "maxObjects \<le> length (objects g)"
  then have f: "maxObjects \<le> length (objects (g\<lparr>bookOpen := b\<rparr>))" for b by simp
  show "objects (handleEvent g time (MouseButtonPressed button x y)) = objects g"
    using mousePressed_full(1) [OF f] by (simp add: handleEvent_def Let_def)
  show "elements (handleEvent g time (MouseButtonPressed button x y)) = elements g"
    using mousePressed_full(2) [OF f] by (simp add: handleEvent_def Let_def)
  show "nextAddr (handleEvent g time (MouseButtonPressed button x y)) = nextAddr g"
    using mousePressed_full(3) [OF f] by (simp add: handleEvent_def Let_def)
next
  assume h: "catalogIntact g \<and> allocated g \<and> dragged < nextAddr g
        \<and> (\<exists>other \<in> set (objects g). combinable g dragged other)"
  then show "nextAddr g \<notin> set (objects g)" by (auto simp: allocated_def)
  from h obtain pre other post where o: "objects g = pre @ other # post"
    "combinable g dragged other" "\<forall>p \<in> set pre. \<not> combinable g dragged p"
    using split_list_first_prop [of "objects g" "\<lambda>p. combinable g dragged p"] by auto
  from h checkCollisions_first_hit [OF _ _ _ o(1) o(3) o(2), of time]
  have "objects (checkCollisions g dragged time)
          = filter (\<lambda>obj. obj \<noteq> dragged \<and> obj \<noteq> other) (objects g) @ [nextAddr g]"
    by blast
  then show "nextAddr g \<in> set (objects (checkCollisions g dragged time))" by simp
next
  show "length (objects (checkCollisions g dragged time)) \<le> length (objects g)"
    by (rule length_checkCollisions)
qed

lemma fullGame_state:
  "maxObjects \<le> length (objects fullGame)"
  "catalogIntact fullGame" "allocated fullGame" "0 < nextAddr fullGame"
  "1 \<in> set (objects fullGame)" "combinable fullGame 0 1" "nextAddr fullGame = 50"
  by (simp_all add: fullGame_def maxObjects_def catalogIntact_def allocated_def newGame_def
      combinable_def mkGameObject_def getGlobalBounds_def intersects_def initialElements_def
      mkElement_def getResult_def combinations_def rules_def)

theorem spawn_gated_combination_not_witness:
  "maxObjects \<le> length (objects fullGame)
   \<and> catalogIntact fullGame \<and> allocated fullGame \<and> 0 < nextAddr fullGame
   \<and> 1 \<in> set (objects fullGame) \<and> combinable fullGame 0 1
   \<and> objects (handleEvent fullGame 60 (MouseButtonPressed Mouse_Left 710 15)) = objects fullGame
   \<and> elements (handleEvent fullGame 60 (MouseButtonPressed Mouse_Left 710 15)) = elements fullGame
   \<and> 50 \<in> set (objects (checkCollisions fullGame 0 60))
   \<and> length (objects (checkCollisions fullGame 0 60)) \<le> length (objects fullGame)"
proof -
  have ex: "\<exists>other \<in> set (objects fullGame). combinable fullGame 0 other"
    using fullGame_state(5,6) by blast
  from spawn_gated_combination_not [of fullGame 60 Mouse_Left 710 15 0] fullGame_state(1-4) ex
  have "objects (handleEvent fullGame 60 (MouseButtonPressed Mouse_Left 710 15)) = objects fullGame"
    "elements (handleEvent fullGame 60 (MouseButtonPressed Mouse_Left 710 15)) = elements fullGame"
    "nextAddr fullGame \<in> set (objects (checkCollisions fullGame 0 60))"
    "length (objects (checkCollisions fullGame 0 60)) \<le> length (objects fullGame)"
    by blast+
  with fullGame_state show ?thesis by simp
qed

section \<open>The claim about a rejected pair\<close>

lemma marksOnly_rejectable:
  "marksOnly g g' \<Longrightarrow> rejectable g' dragged other = rejectable g dragged other"
  by (simp add: rejectable_def marksOnly_store) (simp add: marksOnly_def)

lemma createResult_marks:
  "invalidMarkTime (createResult g dragged other result time) = invalidMarkTime g"
  "a \<noteq> nextAddr g \<Longrightarrow> store (createResult g dragged other result time) a = store g a"
  by (simp_all add: createResult_def split: option.splits)

lemma markInvalid_fields:
  "invalidMarkTime (markInvalid g dragged other time) = time + 1"
  "invalidMarkPos (markInvalid g dragged other time)
     = midpoint2 (position (sprite (store g dragged))) (position (sprite (store g other)))"
  "color (sprite (store (markInvalid g dragged other time) other)) = (255, 255, 255, 128)"
  "a \<noteq> other \<Longrightarrow> store (markInvalid g dragged other time) a = store g a"
  "nextAddr (markInvalid g dragged other time) = nextAddr g"
  "elements (markInvalid g dragged other time) = elements g"
  "objects (markInvalid g dragged other time) = objects g"
  by (simp_all add: markInvalid_def)

lemma scanObjects_marks:
  "a < nextAddr g \<Longrightarrow>
     (invalidMarkTime (fst (scanObjects g dragged time cands)) = invalidMarkTime g
        \<or> invalidMarkTime (fst (scanObjects g dragged time cands)) = time + 1)
     \<and> (color (sprite (store (fst (scanObjects g dragged time cands)) a)) = color (sprite (store g a))
        \<or> color (sprite (store (fst (scanObjects g dragged time cands)) a)) = (255, 255, 255, 128))"
proof (induction cands arbitrary: g)
  case Nil
  show ?case by simp
next
  case (Cons p cands)
  show ?case
  proof (cases "combinable g dragged p")
    case True
    from Cons.prems have "a \<noteq> nextAddr g" by simp
    with True show ?thesis by (simp add: combinable_def createResult_marks)
  next
    case nc: False
    show ?thesis
    proof (cases "rejectable g dragged p")
      case True
      let ?g1 = "markInvalid g dragged p time"
      have s: "scanObjects g dragged time (p # cands) = scanObjects ?g1 dragged time cands"
        using True by (simp add: rejectable_def)
      from Cons.prems have "a < nextAddr ?g1" by (simp add: markInvalid_fields)
      from Cons.IH [OF this] show ?thesis
        unfolding s by (cases "a = p") (auto simp: markInvalid_fields)
    next
      case False
      with nc have s: "scanObjects g dragged time (p # cands) = scanObjects g dragged time cands"
        by (auto simp: rejectable_def combinable_def)
      from Cons.IH [OF Cons.prems] show ?thesis unfolding s .
    qed
  qed
qed

lemma checkCollisions_marks:
  "invalidMarkTime (checkCollisions g dragged time)
     = invalidMarkTime (fst (scanObjects g dragged time (objects g)))"
  "store (checkCollisions g dragged time) = store (fst (scanObjects g dragged time (objects g)))"
  by (simp_all add: checkCollisions_def split: prod.splits)

lemma resetColors_white:
  "a \<in> set objs \<or> color (sprite (st a)) = White \<Longrightarrow> color (sprite (resetColors objs st a)) = White"
  unfolding resetColors_def
proof (induction objs arbitrary: st)
  case Nil
  then show ?case by simp
next
  case (Cons obj objs)
  from Cons.prems have "a \<in> set objs \<or> color (sprite ((st(obj := setColor White (st obj))) a)) = White"
    by auto
  with Cons.IH [of "st(obj := setColor White (st obj))"] show ?case by simp
qed

lemma update_white:
  "a \<in> set (objects (update g time)) \<Longrightarrow> color (sprite (store (update g time) a)) = White"
  by (simp add: update_def resetColors_white)

text \<open>
  Claim C5, amended. In a state of a run, let \<open>other\<close> be an object that is not the
  dragged one, is not being dragged, overlaps it and has no registered result with it,
  and let no object before it in the vector combine with the dragged one. Then the scan
  reaches \<open>other\<close> and goes on with the objects after it from a state where the invalid
  mark is at the midpoint of the two positions and expires at the release time plus one,
  \<open>other\<close> is half transparent, and the elements and the vector are as before. When
  \<open>checkCollisions\<close> returns, the mark still expires at the release time plus one and
  \<open>other\<close> is still half transparent; if no later object combines, no element and no
  entry of the vector has changed. The next \<open>update\<close> makes \<open>other\<close> white again.
\<close>

theorem rejected_pair_marked:
  assumes "g = run (newGame texs) inputs"
    and "objects g = pre @ other # post"
    and "\<forall>p \<in> set pre. \<not> combinable g dragged p"
    and "rejectable g dragged other"
  shows "scanObjects g dragged time (objects g)
           = scanObjects (afterReject g dragged other time pre) dragged time post
         \<and> invalidMarkPos (afterReject g dragged other time pre)
             = midpoint2 (position (sprite (store g dragged))) (position (sprite (store g other)))
         \<and> invalidMarkTime (afterReject g dragged other time pre) = time + 1
         \<and> color (sprite (store (afterReject g dragged other time pre) other)) = (255, 255, 255, 128)
         \<and> elements (afterReject g dragged other time pre) = elements g
         \<and> objects (afterReject g dragged other time pre) = objects g
         \<and> invalidMarkTime (checkCollisions g dragged time) = time + 1
         \<and> color (sprite (store (checkCollisions g dragged time) other)) = (255, 255, 255, 128)
         \<and> ((\<forall>p \<in> set post. \<not> combinable g dragged p) \<longrightarrow>
               elements (checkCollisions g dragged time) = elements g
               \<and> objects (checkCollisions g dragged time) = objects g)
         \<and> (other \<in> set (objects (update (checkCollisions g dragged time) time')) \<longrightarrow>
               color (sprite (store (update (checkCollisions g dragged time) time') other)) = White)"
proof -
  let ?g1 = "fst (scanObjects g dragged time pre)"
  let ?g2 = "afterReject g dragged other time pre"
  have g2: "?g2 = markInvalid ?g1 dragged other time" by (simp add: afterReject_def)
  from scanObjects_no_hit [OF assms(3), of time "other # post"]
  have s1: "scanObjects g dragged time (objects g) = scanObjects ?g1 dragged time (other # post)"
    and m1: "marksOnly g ?g1" by (simp_all add: assms(2))
  from assms(4) have r1: "rejectable ?g1 dragged other" by (simp add: marksOnly_rejectable [OF m1])
  then have s2: "scanObjects ?g1 dragged time (other # post) = scanObjects ?g2 dragged time post"
    by (simp add: rejectable_def g2)
  have m2: "marksOnly g ?g2"
    unfolding g2 using m1 marksOnly_markInvalid by (rule marksOnly_trans)
  have "sound g" unfolding assms(1) using sound_newGame by (rule sound_run)
  then have "other < nextAddr g" by (simp add: sound_def allocated_def assms(2))
  then have lt: "other < nextAddr ?g2" using m2 by (simp add: marksOnly_def)
  have A: "scanObjects g dragged time (objects g) = scanObjects ?g2 dragged time post"
    using s1 s2 by simp
  have B: "invalidMarkPos ?g2
             = midpoint2 (position (sprite (store g dragged))) (position (sprite (store g other)))"
    by (simp add: g2 markInvalid_fields marksOnly_store [OF m1])
  have C: "invalidMarkTime ?g2 = time + 1"
    and D: "color (sprite (store ?g2 other)) = (255, 255, 255, 128)"
    by (simp_all add: g2 markInvalid_fields)
  have E: "elements ?g2 = elements g" and F: "objects ?g2 = objects g"
    using m2 by (simp_all add: marksOnly_def)
  from scanObjects_marks [OF lt, of dragged time post] C D
  have G: "invalidMarkTime (checkCollisions g dragged time) = time + 1"
    and H: "color (sprite (store (checkCollisions g dragged time) other)) = (255, 255, 255, 128)"
    by (auto simp: checkCollisions_marks A)
  have I: "elements (checkCollisions g dragged time) = elements g
           \<and> objects (checkCollisions g dragged time) = objects g"
    if "\<forall>p \<in> set post. \<not> combinable g dragged p"
  proof -
    from that have "\<forall>p \<in> set post. \<not> combinable ?g2 dragged p"
      by (simp add: marksOnly_combinable [OF m2])
    from scanObjects_no_hit [OF this, of time "[]"]
    have e: "snd (scanObjects ?g2 dragged time post) = []"
      and m3: "marksOnly ?g2 (fst (scanObjects ?g2 dragged time post))" by simp_all
    obtain g3 rm where p: "scanObjects ?g2 dragged time post = (g3, rm)" by force
    with e have "checkCollisions g dragged time = fst (scanObjects ?g2 dragged time post)"
      by (simp add: checkCollisions_def A)
    with marksOnly_trans [OF m2 m3] show ?thesis by (simp add: marksOnly_def)
  qed
  have J: "color (sprite (store (update (checkCollisions g dragged time) time') other)) = White"
    if "other \<in> set (objects (update (checkCollisions g dragged time) time'))"
    using that by (rule update_white)
  from A B C D E F G H I J show ?thesis by blast
qed

lemma rejectRun_state: "run (newGame fallbackTextures) rejectRun = rejectGame"
  by (simp add: rejectRun_def steamRun_def rejectGame_def evalDefs fun_eq_iff)

lemma rejectGame_state:
  "objects rejectGame = [2, 3]" "rejectable rejectGame 3 2"
  by (simp_all add: rejectGame_def evalDefs rejectable_def)

theorem rejected_pair_marked_witness:
  "run (newGame fallbackTextures) rejectRun = rejectGame
   \<and> objects rejectGame = [] @ 2 # [3]
   \<and> rejectable rejectGame 3 2
   \<and> invalidMarkTime (checkCollisions rejectGame 3 11) = 11 + 1
   \<and> color (sprite (store (checkCollisions rejectGame 3 11) 2)) = (255, 255, 255, 128)
   \<and> objects (checkCollisions rejectGame 3 11) = objects rejectGame"
proof -
  have h: "objects rejectGame = [] @ 2 # [3]" "\<forall>p \<in> set []. \<not> combinable rejectGame 3 p"
    "rejectable rejectGame 3 2"
    using rejectGame_state by simp_all
  have n: "\<forall>p \<in> set [3]. \<not> combinable rejectGame 3 p" by (simp add: combinable_def)
  from rejected_pair_marked [OF rejectRun_state [symmetric] h, of 11] n h rejectRun_state
  show ?thesis by blast
qed

lemma shadowedRun_state: "run (newGame fallbackTextures) shadowedRun = shadowedGame"
  by (simp add: shadowedRun_def shadowedGame_def evalDefs fun_eq_iff)

text \<open>
  Claim C5 fails for an object behind a valid partner: in \<open>shadowedGame\<close> the Fire
  overlaps the Water (object 4) and the Steam (object 5), which has no result with
  Fire. The release combines Fire and Water and stops: no mark is set and the Steam
  stays white.
\<close>

theorem shadowed_pair_not_marked:
  "run (newGame fallbackTextures) shadowedRun = shadowedGame
   \<and> draggingObject shadowedGame = Some 3
   \<and> objects shadowedGame = [2, 3, 4, 5]
   \<and> rejectable shadowedGame 3 5
   \<and> invalidMarkTime (handleEvent shadowedGame 17 (MouseButtonReleased Mouse_Left 410 310)) = 0
   \<and> color (sprite (store (handleEvent shadowedGame 17 (MouseButtonReleased Mouse_Left 410 310)) 5)) = White
   \<and> objects (handleEvent shadowedGame 17 (MouseButtonReleased Mouse_Left 410 310)) = [2, 5, 6]"
  using shadowedRun_state by (simp add: shadowedGame_def evalDefs rejectable_def)


section \<open>The claim about the dragged object\<close>

lemma singleDragger_bookOpen [simp]: "singleDragger (g\<lparr>bookOpen := b\<rparr>) = singleDragger g"
  by (simp add: singleDragger_def)

lemma singleDragger_startDragging:
  assumes "singleDragger g" "draggingObject g = None"
  shows "singleDragger (startDragging g mousePos (objects g))"
  using startDragging_cases [of g mousePos "objects g"] assms
  by (auto simp: singleDragger_def split: if_splits)

lemma bookOpen_startDragging: "bookOpen (startDragging g mousePos objs) = bookOpen g"
  using startDragging_cases [of g mousePos objs] by auto

lemma singleDragger_mousePressed:
  assumes "singleDragger g" "draggingObject g = None"
  shows "singleDragger (mousePressed g time mousePos)"
proof -
  let ?g1 = "sidebarClick g time mousePos 0 0 (elements g)"
  have s: "objStep g ?g1" by (rule sidebarClick_objStep)
  then have "singleDragger ?g1" using assms(1) singleDragger_objStep by blast
  moreover from s assms(2) have "draggingObject ?g1 = None" by (simp add: objStep_def)
  ultimately show ?thesis
    by (simp add: mousePressed_def Let_def singleDragger_startDragging)
qed

lemma bookOpen_mousePressed: "bookOpen (mousePressed g time mousePos) = bookOpen g"
  using sidebarClick_objStep [of g time mousePos 0 0 "elements g"]
  by (simp add: mousePressed_def Let_def bookOpen_startDragging objStep_def)

lemma mouseReleased_idle:
  assumes "singleDragger g"
  shows "singleDragger (mouseReleased g time)"
    and "draggingObject (mouseReleased g time) = None"
    and "bookOpen (mouseReleased g time) = bookOpen g"
proof -
  show "draggingObject (mouseReleased g time) = None"
    by (simp add: mouseReleased_def Let_def split: option.splits)
  show "bookOpen (mouseReleased g time) = bookOpen g"
    using objStep_checkCollisions [of g _ time]
    by (simp add: mouseReleased_def Let_def objStep_def split: option.splits)
  show "singleDragger (mouseReleased g time)"
  proof (cases "draggingObject g")
    case None
    with assms show ?thesis by (simp add: mouseReleased_def)
  next
    case (Some d)
    let ?g1 = "if intersects (getGlobalBounds (sprite (store g d))) trashBinBounds
               then g\<lparr>objects := filter (\<lambda>obj. obj \<noteq> d) (objects g)\<rparr>
               else checkCollisions g d time"
    have "objStep g ?g1" by (simp add: objStep_filter objStep_checkCollisions)
    with assms have "singleDragger ?g1" and "draggingObject ?g1 = Some d"
      using singleDragger_objStep Some by (auto simp: objStep_def)
    then have "singleDragger (?g1\<lparr>store := (store ?g1)(d := (store ?g1 d)\<lparr>isDragging := False\<rparr>),
                                  draggingObject := None\<rparr>)"
      by (auto simp: singleDragger_def)
    with Some show ?thesis by (simp add: mouseReleased_def Let_def)
  qed
qed

lemma bookHandleInput_other:
  "\<not> isLeftPress (Ev time event) \<Longrightarrow> bookHandleInput b event = b"
  by (cases event) (auto simp: isLeftPress_def bookHandleInput_def)

lemma dragInv_objStep: "dragInv down g \<Longrightarrow> objStep g g' \<Longrightarrow> dragInv down g'"
  using singleDragger_objStep [of g g'] by (auto simp: dragInv_def objStep_def)

lemma dragInv_bookSame: "dragInv down g \<Longrightarrow> dragInv down (g\<lparr>bookOpen := bookOpen g\<rparr>)"
  by (simp add: dragInv_def)

lemma dragInv_step:
  assumes inv: "dragInv down g" and ok: "isLeftPress input \<longrightarrow> \<not> down"
  shows "dragInv (if isLeftPress input then True else if isLeftRelease input then False else down)
           (step g input)"
proof (cases input)
  case (Tick time)
  with inv objStep_update [of g time] show ?thesis
    by (simp add: isLeftPress_def isLeftRelease_def dragInv_objStep)
next
  case (Ev time event)
  show ?thesis
  proof (cases "isLeftPress input")
    case True
    with Ev obtain x y where e: "event = MouseButtonPressed Mouse_Left x y"
      by (cases event) (auto simp: isLeftPress_def)
    from True ok inv have idle: "draggingObject g = None" and sd: "singleDragger g"
      by (simp_all add: dragInv_def)
    let ?b = "bookHandleInput (bookOpen g) event"
    let ?g2 = "g\<lparr>bookOpen := ?b\<rparr>"
    have h: "handleEvent g time event
             = (if ?b then ?g2 else mousePressed ?g2 time (mapPixelToCoords x y))"
      by (simp add: handleEvent_def Let_def e)
    show ?thesis
    proof (cases ?b)
      case b: True
      with h idle sd True Ev show ?thesis by (simp add: dragInv_def)
    next
      case b: False
      from sd idle have "singleDragger (mousePressed ?g2 time (mapPixelToCoords x y))"
        by (intro singleDragger_mousePressed) simp_all
      moreover have "\<not> bookOpen (mousePressed ?g2 time (mapPixelToCoords x y))"
        using b by (simp add: bookOpen_mousePressed)
      ultimately show ?thesis using h b True Ev by (simp add: dragInv_def)
    qed
  next
    case np: False
    then have bk: "bookHandleInput (bookOpen g) event = bookOpen g"
      unfolding Ev by (rule bookHandleInput_other)
    show ?thesis
    proof (cases "isLeftRelease input")
      case True
      with Ev obtain x y where e: "event = MouseButtonReleased Mouse_Left x y"
        by (cases event) (auto simp: isLeftRelease_def)
      have same: "g\<lparr>bookOpen := b\<rparr> = g" if "bookOpen g = b" for b
        using that by auto
      have h: "handleEvent g time event = (if bookOpen g then g else mouseReleased g time)"
        by (simp add: handleEvent_def Let_def e same bookHandleInput_release)
      show ?thesis
      proof (cases "bookOpen g")
        case b: True
        with inv have "draggingObject g = None" "singleDragger g" by (simp_all add: dragInv_def)
        with h b np True Ev show ?thesis by (simp add: dragInv_def)
      next
        case b: False
        from inv have "singleDragger g" by (simp add: dragInv_def)
        from mouseReleased_idle [OF this, of time] h b np True Ev show ?thesis
          by (simp add: dragInv_def)
      qed
    next
      case nr: False
      have "dragInv down (handleEvent g time event)"
      proof (cases event)
        case (MouseWheelScrolled delta x y)
        have "objStep g (scrollSidebar g delta (mapPixelToCoords x y))"
          by (rule objStep_scrollSidebar)
        with inv have d: "dragInv down (scrollSidebar g delta (mapPixelToCoords x y))"
          by (rule dragInv_objStep)
        then show ?thesis
          by (simp add: handleEvent_def Let_def MouseWheelScrolled bookHandleInput_def dragInv_def)
      next
        case (MouseButtonPressed button x y)
        with np Ev have "button \<noteq> Mouse_Left" by (simp add: isLeftPress_def)
        with inv show ?thesis
          by (simp add: handleEvent_def Let_def MouseButtonPressed bookHandleInput_def dragInv_def)
      next
        case (MouseButtonReleased button x y)
        with nr Ev have "button \<noteq> Mouse_Left" by (simp add: isLeftRelease_def)
        with inv show ?thesis
          by (simp add: handleEvent_def Let_def MouseButtonReleased bookHandleInput_def dragInv_def)
      next
        case (MouseMoved x y)
        have "objStep (g\<lparr>bookOpen := bookOpen g\<rparr>) (mouseMoved (g\<lparr>bookOpen := bookOpen g\<rparr>) (mapPixelToCoords x y))"
          by (rule objStep_mouseMoved)
        with dragInv_bookSame [OF inv]
        have "dragInv down (mouseMoved (g\<lparr>bookOpen := bookOpen g\<rparr>) (mapPixelToCoords x y))"
          by (rule dragInv_objStep)
        with inv show ?thesis
          by (simp add: handleEvent_def Let_def MouseMoved bookHandleInput_def dragInv_def)
      qed (use inv in \<open>simp_all add: handleEvent_def Let_def bookHandleInput_def dragInv_def\<close>)
      with np nr Ev show ?thesis by simp
    qed
  qed
qed

lemma dragInv_run:
  "dragInv down g \<Longrightarrow> pressesSeparated down inputs \<Longrightarrow> \<exists>down'. dragInv down' (run g inputs)"
  unfolding run_def
proof (induction inputs arbitrary: g down)
  case Nil
  then show ?case by auto
next
  case (Cons input inputs)
  let ?down = "if isLeftPress input then True else if isLeftRelease input then False else down"
  from Cons.prems(2) have ok: "isLeftPress input \<longrightarrow> \<not> down"
    and rest: "pressesSeparated ?down inputs" by (auto split: if_splits)
  from dragInv_step [OF Cons.prems(1) ok] have "dragInv ?down (step g input)" .
  from Cons.IH [OF this rest] show ?case by simp
qed

text \<open>
  The handlers keep the flag unique as long as the button is released before it is
  pressed again: when every two left presses of the input are separated by a left
  release, then in every state of the run an object of the world flagged as dragged is
  the dragged object, so at most one is flagged.
\<close>

theorem single_dragger:
  assumes "pressesSeparated False inputs" and "g = run (newGame texs) inputs"
    and "a \<in> set (objects g)" and "isDragging (store g a)"
  shows "draggingObject g = Some a \<and> (\<forall>b \<in> set (objects g). isDragging (store g b) \<longrightarrow> b = a)"
proof -
  have "dragInv False (newGame texs)"
    by (simp add: dragInv_def singleDragger_def newGame_def)
  from dragInv_run [OF this assms(1)] have "singleDragger g"
    unfolding assms(2) by (auto simp: dragInv_def)
  then have d: "draggingObject g = Some c" if "c \<in> set (objects g)" "isDragging (store g c)" for c
    using that by (simp add: singleDragger_def)
  from d [OF assms(3,4)] have "b = a" if "b \<in> set (objects g)" "isDragging (store g b)" for b
    using d [OF that] by simp
  with d [OF assms(3,4)] show ?thesis by blast
qed

lemma steamRun_dragging:
  "objects (run (newGame fallbackTextures) steamRun) = [0, 1]"
  "isDragging (store (run (newGame fallbackTextures) steamRun) 0)"
  "\<not> isDragging (store (run (newGame fallbackTextures) steamRun) 1)"
  by (simp_all add: steamRun_def evalDefs)

theorem single_dragger_witness:
  "pressesSeparated False steamRun
   \<and> 0 \<in> set (objects (run (newGame fallbackTextures) steamRun))
   \<and> isDragging (store (run (newGame fallbackTextures) steamRun) 0)
   \<and> draggingObject (run (newGame fallbackTextures) steamRun) = Some 0
   \<and> \<not> isDragging (store (run (newGame fallbackTextures) steamRun) 1)"
proof -
  have h: "pressesSeparated False steamRun"
    by (simp add: steamRun_def isLeftPress_def isLeftRelease_def)
  have m: "0 \<in> set (objects (run (newGame fallbackTextures) steamRun))"
    by (simp add: steamRun_dragging)
  from single_dragger [OF h refl m steamRun_dragging(2)] h m steamRun_dragging
  show ?thesis by blast
qed

text \<open>
  Claim C6. The code breaks it when a second left press arrives during a drag: the press
  handler flags the object under the pointer and overwrites the dragged pointer, and
  does not clear the flag of the object dragged so far, which only the release handler
  does. Both objects of the world are then flagged as dragged.
\<close>

theorem two_presses_two_draggers:
  "objects (run (newGame fallbackTextures) doublePressRun) = [0, 1]
   \<and> isDragging (store (run (newGame fallbackTextures) doublePressRun) 0)
   \<and> isDragging (store (run (newGame fallbackTextures) doublePressRun) 1)"
  by (simp add: doublePressRun_def evalDefs)

end
